theory Spec2Isabelle
  imports Main "HOL-Library.Word" "HOL-Library.Monad_Syntax"
begin

unbundle bit_operations_syntax

section \<open>Machine types and memory\<close>

text \<open>
  \<open>unsigned char\<close> is an 8-bit word and \<open>unsigned short\<close> a 16-bit word. C \<open>int\<close> values
  (sizes, lengths, return codes) are modelled as \<open>int\<close>/\<open>nat\<close>: every quantity of that type
  in the modelled functions is bounded by the size of an allocated buffer.

  A buffer is the list of the bytes of one allocation; a pointer is a \<open>byte list option\<close>
  with \<open>None\<close> for \<open>NULL\<close>. A function that can read or write outside an allocation, or
  dereference \<open>NULL\<close>, returns an \<open>option\<close>: \<open>None\<close> stands for that undefined behaviour
  (the call does not return a value the program can rely on).
\<close>

type_synonym byte = "8 word"
type_synonym u16 = "16 word"

text \<open>Reading element \<open>i\<close> of an array through a pointer: \<open>a[i]\<close>.\<close>

definition rd :: "'a list option \<Rightarrow> int \<Rightarrow> 'a option" where
  "rd a i = (case a of None \<Rightarrow> None
             | Some xs \<Rightarrow> if 0 \<le> i \<and> i < int (length xs) then Some (xs ! nat i) else None)"

text \<open>Writing element \<open>i\<close> of an array through a pointer: \<open>a[i] = v\<close>.\<close>

definition wr :: "'a list option \<Rightarrow> int \<Rightarrow> 'a \<Rightarrow> 'a list option option" where
  "wr a i v = (case a of None \<Rightarrow> None
               | Some xs \<Rightarrow> if 0 \<le> i \<and> i < int (length xs) then Some (Some (xs[nat i := v])) else None)"

text \<open>
  \<open>Sstrlen(x)\<close> is \<open>strlen\<close>: the number of bytes before the first NUL. It is defined only
  when the pointer is not \<open>NULL\<close> and a NUL is found inside the allocation.
\<close>

definition cstr :: "byte list \<Rightarrow> byte list" where
  "cstr b = takeWhile (\<lambda>c. c \<noteq> 0) b"

definition Sstrlen :: "byte list option \<Rightarrow> nat option" where
  "Sstrlen x = (case x of None \<Rightarrow> None
                | Some b \<Rightarrow> if 0 \<in> set b then Some (length (cstr b)) else None)"

text \<open>
  \<open>strncpy(dest + doff, src + soff, n)\<close>: bytes of the source are copied up to and including
  its first NUL, at most \<open>n\<close> of them, and the destination is padded with NULs to \<open>n\<close>
  bytes. The source is read until \<open>n\<close> bytes or a NUL have been seen; the \<open>n\<close> bytes written
  must lie in the destination. Source and destination are different allocations.
\<close>

definition strncpy :: "byte list option \<Rightarrow> int \<Rightarrow> byte list option \<Rightarrow> int \<Rightarrow> int
    \<Rightarrow> byte list option option" where
  "strncpy dest doff src soff n = (case (dest, src) of
       (Some d, Some s) \<Rightarrow>
         if 0 \<le> doff \<and> 0 \<le> soff \<and> 0 \<le> n \<and> doff + n \<le> int (length d) \<and> soff \<le> int (length s)
         then (let s' = drop (nat soff) s; c = cstr (take (nat n) s') in
               if int (length c) = n \<or> length c < length s'
               then Some (Some (take (nat doff) d @ c @ replicate (nat n - length c) 0
                                 @ drop (nat (doff + n)) d))
               else None)
         else None
     | _ \<Rightarrow> None)"

text \<open>\<open>calloc(n, sizeof(unsigned char))\<close> when it succeeds.\<close>

definition calloc :: "int \<Rightarrow> byte list option" where
  "calloc n = Some (replicate (nat n) 0)"

section \<open>cksum.c: the rotate-and-sum primitive\<close>

text \<open>One iteration of the loop body of \<open>puz_cksum_region\<close>.\<close>

definition cksum_step :: "u16 \<Rightarrow> byte \<Rightarrow> u16" where
  "cksum_step cksum b =
     (let c1 = (if cksum AND 0x0001 \<noteq> 0 then drop_bit 1 cksum + 0x8000 else drop_bit 1 cksum)
      in c1 + ucast b)"

text \<open>The loop \<open>for(i = 0; i < len; i++)\<close> over the bytes \<open>base[0..len)\<close>.\<close>

fun cksum_loop :: "byte list \<Rightarrow> u16 \<Rightarrow> u16" where
  "cksum_loop [] cksum = cksum"
| "cksum_loop (b # bs) cksum = cksum_loop bs (cksum_step cksum b)"

text \<open>
  \<open>puz_cksum_region(base, len, cksum)\<close>: the pointer \<open>base\<close> is \<open>NULL\<close> or the start of an
  allocation. Reading \<open>len\<close> bytes is defined only when they are all inside it; a
  non-positive \<open>len\<close> reads nothing.
\<close>

definition puz_cksum_region :: "byte list option \<Rightarrow> int \<Rightarrow> u16 \<Rightarrow> u16 option" where
  "puz_cksum_region base len cksum =
     (case base of
        None \<Rightarrow> if len \<le> 0 then Some cksum else None
      | Some b \<Rightarrow> if len \<le> int (length b) then Some (cksum_loop (take (nat len) b) cksum) else None)"

section \<open>puz.h: the puzzle aggregate\<close>

record puz_head_t =
  cksum_puz :: u16
  magic :: "byte list"
  cksum_cib :: u16
  magic_10 :: "byte list"
  magic_14 :: "byte list"
  magic_18 :: "byte list"
  noise_1c :: u16
  scrambled_cksum :: u16
  noise_20 :: u16
  noise_22 :: u16
  noise_24 :: u16
  noise_26 :: u16
  noise_28 :: u16
  noise_2a :: u16
  width :: byte
  height :: byte
  clue_count :: u16
  x_unk_30 :: u16
  scrambled_tag :: u16

text \<open>
  The pointer fields are \<open>option\<close>s (\<open>None\<close> is \<open>NULL\<close>); \<open>clues\<close>, \<open>rtbl\<close> and \<open>rusr\<close> point
  to arrays of pointers. The fixed arrays \<open>calc_cksums[4]\<close>, \<open>calc_magic10[4]\<close>,
  \<open>calc_magic14[4]\<close> and \<open>cib[8]\<close> are lists. \<open>notes_sz\<close> and \<open>rtbl_sz\<close> are \<open>int\<close>s, 32-bit
  words read with \<open>sint\<close>; \<open>rusr_sz\<close> is an \<open>unsigned int\<close>, a 32-bit word read with \<open>uint\<close> or
  \<open>unat\<close>.
\<close>

record puzzle_t =
  sz :: int
  header :: puz_head_t
  calc_cksum_puzcib :: u16
  calc_cksums :: "u16 list"
  calc_magic10 :: "byte list"
  calc_magic14 :: "byte list"
  cib :: "byte list"
  base :: "byte list option"
  solution :: "byte list option"
  grid :: "byte list option"
  title :: "byte list option"
  author :: "byte list option"
  copyright :: "byte list option"
  clues :: "byte list option list option"
  "notes" :: "byte list option"
  notes_sz :: "32 word"
  grbs_cksum :: u16
  calc_grbs_cksum :: u16
  grbs :: "byte list option"
  rtbl_sz :: "32 word"
  rtbl_cksum :: u16
  calc_rtbl_cksum :: u16
  rtbl :: "byte list option list option"
  ltim_cksum :: u16
  calc_ltim_cksum :: u16
  ltim :: "byte list option"
  gext_cksum :: u16
  calc_gext_cksum :: u16
  gext :: "byte list option"
  rusr_cksum :: u16
  calc_rusr_cksum :: u16
  rusr :: "byte list option list option"
  rusr_sz :: "32 word"

section \<open>puzzle.c: accessors\<close>

text \<open>Every accessor takes the puzzle pointer, which may be \<open>NULL\<close>.\<close>

definition puz_width_get :: "puzzle_t option \<Rightarrow> int" where
  "puz_width_get puz = (case puz of None \<Rightarrow> -1 | Some p \<Rightarrow> uint (width (header p)))"

definition puz_height_get :: "puzzle_t option \<Rightarrow> int" where
  "puz_height_get puz = (case puz of None \<Rightarrow> -1 | Some p \<Rightarrow> uint (height (header p)))"

definition puz_solution_get :: "puzzle_t option \<Rightarrow> byte list option" where
  "puz_solution_get puz = (case puz of None \<Rightarrow> None | Some p \<Rightarrow> solution p)"






definition puz_has_rebus :: "puzzle_t option \<Rightarrow> bool" where
  "puz_has_rebus puz = (case puz of None \<Rightarrow> False | Some p \<Rightarrow> grbs p \<noteq> None)"



definition puz_has_timer :: "puzzle_t option \<Rightarrow> bool" where
  "puz_has_timer puz = (case puz of None \<Rightarrow> False | Some p \<Rightarrow> ltim p \<noteq> None)"

definition puz_has_extras :: "puzzle_t option \<Rightarrow> bool" where
  "puz_has_extras puz = (case puz of None \<Rightarrow> False | Some p \<Rightarrow> gext p \<noteq> None)"

definition puz_has_rusr :: "puzzle_t option \<Rightarrow> bool" where
  "puz_has_rusr puz = (case puz of None \<Rightarrow> False | Some p \<Rightarrow> rusr p \<noteq> None)"

text \<open>
  \<open>puz_lock_set(puz, cksum)\<close> returns the updated puzzle with its \<open>unsigned short\<close> result
  (\<open>-1\<close> converts to \<open>0xFFFF\<close>).
\<close>

definition puz_lock_set :: "puzzle_t option \<Rightarrow> u16 \<Rightarrow> u16 \<times> puzzle_t option" where
  "puz_lock_set puz cksum = (case puz of None \<Rightarrow> (-1, None)
     | Some p \<Rightarrow>
         if cksum \<noteq> 0
         then (cksum, Some (p\<lparr>header := (header p)\<lparr>scrambled_tag := 4, scrambled_cksum := cksum\<rparr>\<rparr>))
         else (cksum, Some (p\<lparr>header := (header p)\<lparr>scrambled_tag := 0, scrambled_cksum := 0x0000\<rparr>\<rparr>)))"

subsection \<open>puz_init\<close>

text \<open>\<open>FILE_MAGIC\<close> and \<open>VER_MAGIC\<close> of puz.h.\<close>

definition FILE_MAGIC :: "byte list" where
  "FILE_MAGIC = [65, 67, 82, 79, 83, 83, 38, 68, 79, 87, 78, 0]"

definition VER_MAGIC :: "byte list" where
  "VER_MAGIC = [49, 46, 50, 0]"

text \<open>The puzzle after \<open>memset(puz, 0, sizeof(struct puzzle_t))\<close>.\<close>

definition zeroed_head :: puz_head_t where
  "zeroed_head = \<lparr>cksum_puz = 0, magic = replicate 12 0, cksum_cib = 0,
     magic_10 = replicate 4 0, magic_14 = replicate 4 0, magic_18 = replicate 4 0,
     noise_1c = 0, scrambled_cksum = 0, noise_20 = 0, noise_22 = 0, noise_24 = 0,
     noise_26 = 0, noise_28 = 0, noise_2a = 0, width = 0, height = 0, clue_count = 0,
     x_unk_30 = 0, scrambled_tag = 0\<rparr>"

definition zeroed_puzzle :: puzzle_t where
  "zeroed_puzzle = \<lparr>sz = 0, header = zeroed_head, calc_cksum_puzcib = 0,
     calc_cksums = replicate 4 0, calc_magic10 = replicate 4 0, calc_magic14 = replicate 4 0,
     cib = replicate 8 0, base = None, solution = None, grid = None, title = None,
     author = None, copyright = None, clues = None, notes = None, notes_sz = 0,
     grbs_cksum = 0, calc_grbs_cksum = 0, grbs = None, rtbl_sz = 0, rtbl_cksum = 0,
     calc_rtbl_cksum = 0, rtbl = None, ltim_cksum = 0, calc_ltim_cksum = 0, ltim = None,
     gext_cksum = 0, calc_gext_cksum = 0, gext = None, rusr_cksum = 0, calc_rusr_cksum = 0,
     rusr = None, rusr_sz = 0\<rparr>"

text \<open>
  \<open>puz_init(puz)\<close>: a \<open>NULL\<close> argument is allocated (\<open>malloc_ok\<close> says whether that
  succeeds); the result is the initialised puzzle, or \<open>NULL\<close>.
\<close>

definition puz_init :: "bool \<Rightarrow> puzzle_t option \<Rightarrow> puzzle_t option" where
  "puz_init malloc_ok puz =
     (if puz = None \<and> \<not> malloc_ok then None
      else Some (zeroed_puzzle\<lparr>header :=
             zeroed_head\<lparr>magic := FILE_MAGIC, magic_18 := VER_MAGIC, x_unk_30 := 0x0001\<rparr>\<rparr>))"

subsection \<open>puz_size\<close>

text \<open>
  The arithmetic of \<open>puz_size\<close> on its \<open>int sz\<close> (32 bits). Adding two \<open>int\<close>s is undefined
  when the sum is out of range. \<open>sz += Sstrlen(x) + 1\<close> and \<open>sz += puz->rusr_sz\<close> add in an
  unsigned type and convert the result to \<open>int\<close>, which keeps the low 32 bits.
\<close>

definition int_add :: "int \<Rightarrow> int \<Rightarrow> int option" where
  "int_add a b = (if - (2 ^ 31) \<le> a + b \<and> a + b < 2 ^ 31 then Some (a + b) else None)"








subsection \<open>The rebus table and the user rebus grid as strings\<close>

text \<open>The bytes of a C string before its NUL, through a pointer.\<close>

definition cbytes :: "byte list option \<Rightarrow> byte list" where
  "cbytes x = (case x of None \<Rightarrow> [] | Some b \<Rightarrow> cstr b)"

text \<open>
  The second loop of \<open>puz_rtblstr_get\<close>: each entry is copied without its NUL
  (\<open>memcpy(c, puz->rtbl[i], sz)\<close>) and followed by \<open>';'\<close>. The accumulator holds the bytes
  written so far, \<open>rtbl_str[0 .. c - rtbl_str)\<close>.
\<close>

fun rtblstr_fill :: "byte list option list option \<Rightarrow> int list \<Rightarrow> byte list \<Rightarrow> byte list option" where
  "rtblstr_fill t [] acc = Some acc"
| "rtblstr_fill t (i # is) acc =
     (case rd t i of None \<Rightarrow> None
      | Some e \<Rightarrow> (case Sstrlen e of None \<Rightarrow> None
          | Some n \<Rightarrow> rtblstr_fill t is (acc @ cbytes e @ [59])))"

text \<open>
  A loop \<open>for(i = 0; i < n; i++) acc += f(i);\<close> over the index list \<open>[0..<n]\<close>, where
  evaluating \<open>f(i)\<close> may be undefined.
\<close>

fun sum_loop :: "(int \<Rightarrow> int option) \<Rightarrow> int list \<Rightarrow> int \<Rightarrow> int option" where
  "sum_loop f [] acc = Some acc"
| "sum_loop f (i # is) acc = (case f i of None \<Rightarrow> None | Some d \<Rightarrow> sum_loop f is (acc + d))"

text \<open>
  \<open>puz_rtblstr_get\<close>: the first loop sizes the buffer with the same \<open>strlen\<close>s the second
  loop copies, so the writes fill the allocation exactly; the last byte is set to NUL.
  \<open>malloc_ok\<close> says whether the (checked) \<open>malloc\<close> succeeds.
\<close>

definition puz_rtblstr_get :: "bool \<Rightarrow> puzzle_t option \<Rightarrow> byte list option option" where
  "puz_rtblstr_get malloc_ok puz = (case puz of None \<Rightarrow> Some None
     | Some p \<Rightarrow> do {
         rtbl_strsz \<leftarrow> sum_loop (\<lambda>i. do { e \<leftarrow> rd (rtbl p) i; n \<leftarrow> Sstrlen e; Some (int n + 1) })
                         [0..sint (rtbl_sz p) - 1] 1;
         if \<not> malloc_ok then Some None
         else do {
           written \<leftarrow> rtblstr_fill (rtbl p) [0..sint (rtbl_sz p) - 1] [];
           Some (Some (written @ [0])) } })"

text \<open>
  The loop of \<open>puz_rusrstr_get\<close> over the cells \<open>rusr[j]\<close>: a \<open>NULL\<close> cell writes one NUL,
  another cell its string and a NUL. The accumulator holds the bytes written so far,
  \<open>rusrstr[0..i)\<close>; a write at or beyond \<open>rusr_sz\<close> is outside the allocation.
\<close>

fun rusrstr_fill :: "byte list option list option \<Rightarrow> nat \<Rightarrow> int list \<Rightarrow> byte list \<Rightarrow> byte list option" where
  "rusrstr_fill r cap [] acc = Some acc"
| "rusrstr_fill r cap (j # js) acc =
     (case rd r j of None \<Rightarrow> None
      | Some None \<Rightarrow> if length acc < cap then rusrstr_fill r cap js (acc @ [0]) else None
      | Some (Some b) \<Rightarrow>
          (case Sstrlen (Some b) of None \<Rightarrow> None
           | Some n \<Rightarrow> if length acc + n < cap then rusrstr_fill r cap js (acc @ cstr b @ [0]) else None))"

text \<open>
  \<open>puz_rusrstr_get\<close> returns the \<open>malloc\<close>ed buffer of \<open>rusr_sz\<close> bytes; the model returns
  the bytes the loop has written (the rest of the buffer, if any, is uninitialised).
\<close>

definition puz_rusrstr_get :: "puzzle_t option \<Rightarrow> byte list option option" where
  "puz_rusrstr_get puz = (case puz of None \<Rightarrow> Some None
     | Some p \<Rightarrow> if rusr p = None then Some None
         else do {
           let board_sz = uint (width (header p)) * uint (height (header p));
           written \<leftarrow> rusrstr_fill (rusr p) (unat (rusr_sz p)) [0..board_sz - 1] [];
           Some (Some written) })"

section \<open>puzzle.c: the scrambler\<close>

text \<open>
  The loop of \<open>unscramble_string\<close>: \<open>out[index] = inp[i]\<close> with \<open>index = strbreak + i/2\<close> for
  even \<open>i\<close> and \<open>i/2\<close> for odd \<open>i\<close>.
\<close>

fun unscramble_loop :: "byte list option \<Rightarrow> int \<Rightarrow> int list \<Rightarrow> byte list option
    \<Rightarrow> byte list option option" where
  "unscramble_loop inp strbreak [] out = Some out"
| "unscramble_loop inp strbreak (i # is) out =
     (let index = (if 0 = i mod 2 then strbreak + i div 2 else i div 2) in
      case rd inp i of None \<Rightarrow> None
      | Some c \<Rightarrow> (case wr out index c of None \<Rightarrow> None
          | Some out' \<Rightarrow> unscramble_loop inp strbreak is out'))"

text \<open>
  \<open>unscramble_string(inp, out)\<close> returns its \<open>unsigned short\<close> result (\<open>-1\<close> is \<open>0xFFFF\<close>)
  and the contents of \<open>out\<close> afterwards. \<open>inp\<close> and \<open>out\<close> are different allocations.
\<close>

definition unscramble_string :: "byte list option \<Rightarrow> byte list option
    \<Rightarrow> (u16 \<times> byte list option) option" where
  "unscramble_string inp out =
     (if inp = None \<or> out = None then Some (-1, out)
      else do {
        len \<leftarrow> Sstrlen inp;
        let strbreak = int len div 2;
        out \<leftarrow> unscramble_loop inp strbreak [0..int len - 1] out;
        out \<leftarrow> wr out (int len) 0;
        Some (0, out) })"

text \<open>
  \<open>unshift_string(inp, shift, out)\<close> with \<open>shift\<close> an \<open>unsigned int\<close>. The test
  \<open>len < (int)shift\<close> reads \<open>shift\<close> as signed; a \<open>shift\<close> of \<open>2^31\<close> or more passes it and
  makes \<open>out + shift\<close> point outside the allocation.
\<close>

definition unshift_string :: "byte list option \<Rightarrow> 32 word \<Rightarrow> byte list option
    \<Rightarrow> (u16 \<times> byte list option) option" where
  "unshift_string inp shift out =
     (if inp = None \<or> out = None then Some (-1, out)
      else do {
        len \<leftarrow> Sstrlen inp;
        if int len < sint shift then Some (-1, out)
        else if sint shift < 0 then None
        else do {
          out \<leftarrow> strncpy out (uint shift) inp 0 (int len - uint shift);
          out \<leftarrow> strncpy out 0 inp (int len - uint shift) (uint shift);
          out \<leftarrow> wr out (int len) 0;
          Some (0, out) } })"

text \<open>The first loop of \<open>formatted_solution\<close>: count the cells that are not \<open>'.'\<close>.\<close>

fun count_loop :: "byte list option \<Rightarrow> int list \<Rightarrow> int \<Rightarrow> int option" where
  "count_loop sol [] size' = Some size'"
| "count_loop sol (i # is) size' =
     (case rd sol i of None \<Rightarrow> None
      | Some c \<Rightarrow> count_loop sol is (if c \<noteq> 46 then size' + 1 else size'))"

text \<open>
  The cell indices the nested loops \<open>for(i=0; i < w; i++) for(j=0; j < h; j++)\<close> of
  \<open>formatted_solution\<close> and \<open>unformat_unlocked_sol\<close> visit, in order: \<open>sol[j*h + i]\<close>.
\<close>

definition visited :: "int \<Rightarrow> int \<Rightarrow> int list" where
  "visited w h = concat (map (\<lambda>i. map (\<lambda>j. j * h + i) [0..h - 1]) [0..w - 1])"

text \<open>The body of the nested loops of \<open>formatted_solution\<close> over the visited cells.\<close>

fun format_loop :: "byte list option \<Rightarrow> int list \<Rightarrow> byte list option \<Rightarrow> int
    \<Rightarrow> byte list option option" where
  "format_loop sol [] out index = Some out"
| "format_loop sol (k # ks) out index =
     (case rd sol k of None \<Rightarrow> None
      | Some c \<Rightarrow>
          if c \<noteq> 46
          then (case wr out index c of None \<Rightarrow> None
                | Some out' \<Rightarrow> format_loop sol ks out' (index + 1))
          else format_loop sol ks out index)"

text \<open>
  \<open>formatted_solution(puz)\<close>: the result is \<open>NULL\<close> or the new buffer. Its \<open>calloc\<close> is not
  checked: \<open>calloc_ok\<close> says whether it succeeds, and when it fails \<open>out\<close> is \<open>NULL\<close> and
  \<open>out[index]\<close> and \<open>out[size]\<close> write through it.
\<close>

definition formatted_solution :: "bool \<Rightarrow> puzzle_t option \<Rightarrow> byte list option option" where
  "formatted_solution calloc_ok puz =
     (if puz = None then Some None
      else do {
        let w = puz_width_get puz;
        let h = puz_height_get puz;
        let board_sz = w * h;
        let sol = puz_solution_get puz;
        size' \<leftarrow> count_loop sol [0..board_sz - 1] 0;
        let out = (if calloc_ok then calloc (size' + 1) else None);
        out \<leftarrow> format_loop sol (visited w h) out 0;
        out \<leftarrow> wr out size' 0;
        Some out })"

text \<open>The body of the nested loops of \<open>unformat_unlocked_sol\<close>; it writes into \<open>sol\<close>.\<close>

fun unformat_loop :: "int list \<Rightarrow> byte list option \<Rightarrow> byte list option \<Rightarrow> int
    \<Rightarrow> byte list option option" where
  "unformat_loop [] sol formatted index = Some sol"
| "unformat_loop (k # ks) sol formatted index =
     (case rd sol k of None \<Rightarrow> None
      | Some c \<Rightarrow>
          if c \<noteq> 46
          then (case rd formatted index of None \<Rightarrow> None
                | Some v \<Rightarrow> (case wr sol k v of None \<Rightarrow> None
                    | Some sol' \<Rightarrow> unformat_loop ks sol' formatted (index + 1)))
          else unformat_loop ks sol formatted index)"

text \<open>\<open>unformat_unlocked_sol(puz, formatted)\<close>: the result and the puzzle afterwards.\<close>

definition unformat_unlocked_sol :: "puzzle_t option \<Rightarrow> byte list option
    \<Rightarrow> (int \<times> puzzle_t option) option" where
  "unformat_unlocked_sol puz formatted = (case puz of None \<Rightarrow> Some (-1, puz)
     | Some p \<Rightarrow>
         if formatted = None then Some (-1, puz)
         else do {
           let w = puz_width_get puz;
           let h = puz_height_get puz;
           let sol = puz_solution_get puz;
           sol \<leftarrow> unformat_loop (visited w h) sol formatted 0;
           Some (0, Some (p\<lparr>solution := sol\<rparr>)) })"

text \<open>
  The inner loop of \<open>puz_unlock_solution\<close>: \<open>workspace1[j] -= digits[j % 4];
  if (workspace1[j] < 65) workspace1[j] += 26;\<close> on \<open>unsigned char\<close>.
\<close>

fun subtract_loop :: "int list \<Rightarrow> int list \<Rightarrow> byte list option \<Rightarrow> byte list option option" where
  "subtract_loop digits [] workspace1 = Some workspace1"
| "subtract_loop digits (j # js) workspace1 =
     (case rd workspace1 j of None \<Rightarrow> None
      | Some c \<Rightarrow>
          (let c1 = c - word_of_int (digits ! nat (j mod 4));
               c2 = (if c1 < 65 then c1 + 26 else c1)
           in case wr workspace1 j c2 of None \<Rightarrow> None
              | Some workspace1' \<Rightarrow> subtract_loop digits js workspace1'))"

text \<open>
  The loop \<open>for(i = 3; i >= 0; i--)\<close> of \<open>puz_unlock_solution\<close>. The result is \<open>Inl ()\<close>
  when the loop leaves the function with \<open>return -4\<close>, and otherwise the two workspaces.
\<close>

fun unlock_rounds :: "int list \<Rightarrow> int \<Rightarrow> int list \<Rightarrow> byte list option \<Rightarrow> byte list option
    \<Rightarrow> (unit + byte list option \<times> byte list option) option" where
  "unlock_rounds digits len [] workspace1 workspace2 = Some (Inr (workspace1, workspace2))"
| "unlock_rounds digits len (i # is) workspace1 workspace2 =
     (case unscramble_string workspace1 workspace2 of None \<Rightarrow> None
      | Some (e1, workspace2') \<Rightarrow>
          (case unshift_string workspace2' (word_of_int (digits ! nat i)) workspace1 of None \<Rightarrow> None
           | Some (e2, workspace1') \<Rightarrow>
               if e1 \<noteq> 0 \<or> e2 \<noteq> 0 then Some (Inl ())
               else (case subtract_loop digits [0..len - 1] workspace1' of None \<Rightarrow> None
                     | Some workspace1'' \<Rightarrow> unlock_rounds digits len is workspace1'' workspace2')))"

text \<open>The loop that copies \<open>workspace1\<close> without \<open>'.'\<close> into \<open>workspace2\<close>.\<close>

fun strip_loop :: "int list \<Rightarrow> byte list option \<Rightarrow> byte list option \<Rightarrow> int
    \<Rightarrow> byte list option option" where
  "strip_loop [] workspace1 workspace2 index = Some workspace2"
| "strip_loop (j # js) workspace1 workspace2 index =
     (case rd workspace1 j of None \<Rightarrow> None
      | Some c \<Rightarrow>
          if c \<noteq> 46
          then (case wr workspace2 index c of None \<Rightarrow> None
                | Some workspace2' \<Rightarrow> strip_loop js workspace1 workspace2' (index + 1))
          else strip_loop js workspace1 workspace2 index)"

text \<open>
  The part of \<open>puz_unlock_solution\<close> that calculates the unscrambled solution and its
  checksum, from the call of \<open>formatted_solution\<close> to the call of \<open>puz_cksum_region\<close>.
  \<open>fs_ok\<close> says whether the \<open>calloc\<close> of \<open>formatted_solution\<close> succeeds, \<open>ws1_ok\<close> and \<open>ws2_ok\<close>
  whether the two checked \<open>calloc\<close>s of the workspaces do.
  The result is \<open>Inl e\<close> when the function returns \<open>e\<close> there (\<open>-3\<close> or \<open>-4\<close>), and otherwise
  \<open>workspace1\<close> and \<open>cksum\<close>.
\<close>

definition unlock_decode :: "bool \<Rightarrow> bool \<Rightarrow> bool \<Rightarrow> puzzle_t option \<Rightarrow> int list
    \<Rightarrow> (int + byte list option \<times> u16) option" where
  "unlock_decode fs_ok ws1_ok ws2_ok puz digits = do {
     inp \<leftarrow> formatted_solution fs_ok puz;
     len \<leftarrow> Sstrlen inp;
     let len = int len;
     let workspace1 = (if ws1_ok then calloc (len + 1) else None);
     let workspace2 = (if ws2_ok then calloc (len + 1) else None);
     if workspace1 = None \<or> workspace2 = None then Some (Inl (-3))
     else do {
       workspace1 \<leftarrow> strncpy workspace1 0 inp 0 (len + 1);
       r \<leftarrow> unlock_rounds digits len [3, 2, 1, 0] workspace1 workspace2;
       case r of
         Inl _ \<Rightarrow> Some (Inl (-4))
       | Inr (workspace1, workspace2) \<Rightarrow> do {
           workspace2 \<leftarrow> strip_loop [0..len - 1] workspace1 workspace2 0;
           workspace2 \<leftarrow> wr workspace2 len 0;
           cksum \<leftarrow> puz_cksum_region workspace2 len 0x0000;
           Some (Inr (workspace1, cksum)) } } }"

text \<open>The four decimal digits \<open>digits[0..3]\<close> of a code.\<close>

definition code_digits :: "u16 \<Rightarrow> int list" where
  "code_digits code = [(uint code div 1000) mod 10, (uint code div 100) mod 10,
                       (uint code div 10) mod 10, uint code mod 10]"

text \<open>\<open>puz_unlock_solution(puz, code)\<close>: the result and the puzzle afterwards.\<close>

definition puz_unlock_solution :: "bool \<Rightarrow> bool \<Rightarrow> bool \<Rightarrow> puzzle_t option \<Rightarrow> u16
    \<Rightarrow> (int \<times> puzzle_t option) option" where
  "puz_unlock_solution fs_ok ws1_ok ws2_ok puz code = (case puz of None \<Rightarrow> Some (-1, puz)
     | Some p \<Rightarrow>
         if scrambled_tag (header p) = 0 then Some (1, puz)
         else
           (let digits = code_digits code
            in if list_ex (\<lambda>d. d = 0) digits then Some (-2, puz)
               else do {
                 d \<leftarrow> unlock_decode fs_ok ws1_ok ws2_ok puz digits;
                 case d of
                   Inl e \<Rightarrow> Some (e, puz)
                 | Inr (workspace1, cksum) \<Rightarrow>
                     if cksum \<noteq> scrambled_cksum (header p) then Some (2, puz)
                     else do {
                       (r, puz) \<leftarrow> unformat_unlocked_sol puz workspace1;
                       let (r, puz) = puz_lock_set puz 0x0000;
                       Some (0, puz) } }))"

text \<open>
  The call \<open>puz_unlock_solution(puz, code)\<close> inside \<open>puz_brute_force_unlock\<close>; \<open>alloc\<close> gives,
  for each code, whether the three allocations of that call succeed (the one of
  \<open>formatted_solution\<close> and the two workspaces).
\<close>

definition unlock_at :: "(int \<Rightarrow> bool \<times> bool \<times> bool) \<Rightarrow> puzzle_t option \<Rightarrow> int
    \<Rightarrow> (int \<times> puzzle_t option) option" where
  "unlock_at alloc puz code = (case alloc code of
     (fs_ok, ws1_ok, ws2_ok) \<Rightarrow> puz_unlock_solution fs_ok ws1_ok ws2_ok puz (word_of_int code))"

text \<open>
  The loop \<open>for (; code < 10000; code++)\<close> of \<open>puz_brute_force_unlock\<close> over the codes
  still to try. The result is the function's return value and the puzzle afterwards.
\<close>

fun brute_loop :: "(int \<Rightarrow> bool \<times> bool \<times> bool) \<Rightarrow> puzzle_t option \<Rightarrow> int list
    \<Rightarrow> (int \<times> puzzle_t option) option" where
  "brute_loop alloc puz [] = Some (-3, puz)"
| "brute_loop alloc puz (code # codes) =
     (case unlock_at alloc puz code of
        None \<Rightarrow> None
      | Some (great_success, puz') \<Rightarrow>
          if great_success = 0 then Some (code, puz') else brute_loop alloc puz' codes)"

definition puz_brute_force_unlock :: "(int \<Rightarrow> bool \<times> bool \<times> bool) \<Rightarrow> puzzle_t option
    \<Rightarrow> (int \<times> puzzle_t option) option" where
  "puz_brute_force_unlock alloc puz = (case puz of None \<Rightarrow> Some (-1, puz)
     | Some p \<Rightarrow>
         if scrambled_tag (header p) = 0 then Some (-2, puz)
         else brute_loop alloc puz [1111..9999])"

section \<open>cksum.c: the derived checksums\<close>

definition puz_cksum_cib :: "puzzle_t \<Rightarrow> u16 option" where
  "puz_cksum_cib p = puz_cksum_region (Some (cib p)) 8 0"

text \<open>
  The pattern \<open>if(Sstrlen(s) > 0) cksum = puz_cksum_region(s, Sstrlen(s)+1, cksum);\<close>
  used for title, author, copyright and notes.
\<close>

definition cksum_str_nul :: "byte list option \<Rightarrow> u16 \<Rightarrow> u16 option" where
  "cksum_str_nul s cksum = do {
     n \<leftarrow> Sstrlen s;
     if n > 0 then puz_cksum_region s (int n + 1) cksum else Some cksum }"

text \<open>
  The loop \<open>for(i = 0; i < puz->header.clue_count; i++)
  cksum = puz_cksum_region(puz->clues[i], Sstrlen(puz->clues[i]), cksum);\<close>
\<close>

fun cksum_clues :: "byte list option list option \<Rightarrow> int list \<Rightarrow> u16 \<Rightarrow> u16 option" where
  "cksum_clues cl [] cksum = Some cksum"
| "cksum_clues cl (i # is) cksum =
     (case rd cl i of None \<Rightarrow> None
      | Some c \<Rightarrow> (case Sstrlen c of None \<Rightarrow> None
          | Some n \<Rightarrow> (case puz_cksum_region c (int n) cksum of None \<Rightarrow> None
              | Some cksum' \<Rightarrow> cksum_clues cl is cksum')))"

definition puz_cksum :: "puzzle_t \<Rightarrow> u16 \<Rightarrow> u16 option" where
  "puz_cksum p cksum = do {
     let puz_a = uint (width (header p)) * uint (height (header p));
     cksum \<leftarrow> puz_cksum_region (solution p) puz_a cksum;
     cksum \<leftarrow> puz_cksum_region (grid p) puz_a cksum;
     cksum \<leftarrow> cksum_str_nul (title p) cksum;
     cksum \<leftarrow> cksum_str_nul (author p) cksum;
     cksum \<leftarrow> cksum_str_nul (copyright p) cksum;
     cksum \<leftarrow> cksum_clues (clues p) [0..uint (clue_count (header p)) - 1] cksum;
     cksum_str_nul (notes p) cksum }"

definition puz_cksum2 :: "puzzle_t \<Rightarrow> u16 \<Rightarrow> u16 option" where
  "puz_cksum2 p cksum = do {
     cksum \<leftarrow> cksum_str_nul (title p) cksum;
     cksum \<leftarrow> cksum_str_nul (author p) cksum;
     cksum \<leftarrow> cksum_str_nul (copyright p) cksum;
     cksum \<leftarrow> cksum_clues (clues p) [0..uint (clue_count (header p)) - 1] cksum;
     cksum_str_nul (notes p) cksum }"

text \<open>\<open>MAGIC_10_MASK\<close> and \<open>MAGIC_14_MASK\<close> of puz.h.\<close>

definition MAGIC_10_MASK :: "byte list" where
  "MAGIC_10_MASK = [73, 67, 72, 69]"

definition MAGIC_14_MASK :: "byte list" where
  "MAGIC_14_MASK = [65, 84, 69, 68]"

text \<open>
  \<open>magic_gen_10\<close> and \<open>magic_gen_14\<close> fill \<open>dest[0..3]\<close> from \<open>sums[0..3]\<close>; the model
  returns the four bytes written.
\<close>

definition magic_gen_10 :: "u16 list \<Rightarrow> byte list" where
  "magic_gen_10 sums = map (\<lambda>i. (ucast ((sums ! i) AND 0xFF) :: byte) XOR (MAGIC_10_MASK ! i)) [0..<4]"

definition magic_gen_14 :: "u16 list \<Rightarrow> byte list" where
  "magic_gen_14 sums =
     map (\<lambda>i. (ucast (drop_bit 8 ((sums ! i) AND 0xFF00)) :: byte) XOR (MAGIC_14_MASK ! i)) [0..<4]"

definition rtbl_gen :: "bool \<Rightarrow> puzzle_t \<Rightarrow> u16 option" where
  "rtbl_gen malloc_ok p = do {
     rtbl_str \<leftarrow> puz_rtblstr_get malloc_ok (Some p);
     if rtbl_str \<noteq> None then do {
       n \<leftarrow> Sstrlen rtbl_str;
       puz_cksum_region rtbl_str (int n) 0x0000 }
     else Some 0 }"

text \<open>
  \<open>rusr_gen\<close> checksums \<open>(int)rusr_sz\<close> bytes of the buffer, so it is defined only when
  \<open>puz_rusrstr_get\<close> has written all of them.
\<close>

definition rusr_gen :: "puzzle_t \<Rightarrow> u16 option" where
  "rusr_gen p = do {
     rusr_str \<leftarrow> puz_rusrstr_get (Some p);
     case rusr_str of
       None \<Rightarrow> Some 0
     | Some written \<Rightarrow>
         puz_cksum_region (Some written) (sint (rusr_sz p)) 0x0000 }"

text \<open>
  The four blocks \<open>if (puz_has_rebus(puz)) {...}\<close>, \<open>if (puz_has_timer(puz)) {...}\<close>,
  \<open>if (puz_has_extras(puz)) {...}\<close> and \<open>if (puz_has_rusr(puz)) {...}\<close> that end
  \<open>puz_cksums_calc\<close>.
\<close>

definition calc_rebus :: "bool \<Rightarrow> int \<Rightarrow> puzzle_t \<Rightarrow> puzzle_t option" where
  "calc_rebus malloc_ok bd_size p =
     (if puz_has_rebus (Some p) then do {
        g \<leftarrow> puz_cksum_region (grbs p) bd_size 0x0000;
        r \<leftarrow> rtbl_gen malloc_ok p;
        Some (p\<lparr>calc_grbs_cksum := g, calc_rtbl_cksum := r\<rparr>) }
      else Some p)"

definition calc_timer :: "puzzle_t \<Rightarrow> puzzle_t option" where
  "calc_timer p =
     (if puz_has_timer (Some p) then do {
        n \<leftarrow> Sstrlen (ltim p);
        t \<leftarrow> puz_cksum_region (ltim p) (int n) 0x0000;
        Some (p\<lparr>calc_ltim_cksum := t\<rparr>) }
      else Some p)"

definition calc_extras :: "int \<Rightarrow> puzzle_t \<Rightarrow> puzzle_t option" where
  "calc_extras bd_size p =
     (if puz_has_extras (Some p) then do {
        g \<leftarrow> puz_cksum_region (gext p) bd_size 0x0000;
        Some (p\<lparr>calc_gext_cksum := g\<rparr>) }
      else Some p)"

definition calc_rusr :: "puzzle_t \<Rightarrow> puzzle_t option" where
  "calc_rusr p =
     (if puz_has_rusr (Some p) then do {
        r \<leftarrow> rusr_gen p;
        Some (p\<lparr>calc_rusr_cksum := r\<rparr>) }
      else Some p)"

text \<open>
  \<open>puz_cksums_calc\<close> dereferences \<open>puz\<close> unchecked. The byte writes \<open>w_le_8\<close> and \<open>w_le_16\<close>
  fill all of \<open>cib[0..7]\<close>. The result is the return value \<open>0\<close> and the updated puzzle.
\<close>

definition puz_cksums_calc :: "bool \<Rightarrow> puzzle_t option \<Rightarrow> (int \<times> puzzle_t) option" where
  "puz_cksums_calc malloc_ok puz = (case puz of None \<Rightarrow> None
     | Some p0 \<Rightarrow> do {
         let h = header p0;
         let p = p0\<lparr>cib :=
                  [width h, height h,
                   ucast (clue_count h AND 0xFF), ucast (drop_bit 8 (clue_count h AND 0xFF00)),
                   ucast (x_unk_30 h AND 0xFF), ucast (drop_bit 8 (x_unk_30 h AND 0xFF00)),
                   ucast (scrambled_tag h AND 0xFF), ucast (drop_bit 8 (scrambled_tag h AND 0xFF00))]\<rparr>;
         puz0 \<leftarrow> puz_cksum2 p 0x0000;
         cib_sum \<leftarrow> puz_cksum_cib p;
         puzcib \<leftarrow> puz_cksum p cib_sum;
         let bd_size = uint (width h) * uint (height h);
         grid_sum \<leftarrow> puz_cksum_region (grid p) bd_size 0x0000;
         soln \<leftarrow> puz_cksum_region (solution p) bd_size 0x0000;
         let p = p\<lparr>calc_cksum_puzcib := puzcib\<rparr>;
         let p = p\<lparr>calc_cksums := [cib_sum, soln, grid_sum, puz0]\<rparr>;
         let p = p\<lparr>calc_magic10 := magic_gen_10 (calc_cksums p)\<rparr>;
         let p = p\<lparr>calc_magic14 := magic_gen_14 (calc_cksums p)\<rparr>;
         p \<leftarrow> calc_rebus malloc_ok bd_size p;
         p \<leftarrow> calc_timer p;
         p \<leftarrow> calc_extras bd_size p;
         p \<leftarrow> calc_rusr p;
         Some (0, p) })"

section \<open>load.c: the binary loader\<close>

text \<open>
  A pointer into the input buffer is the buffer \<open>base\<close> with an offset. \<open>le_16(base + i)\<close>
  reads two bytes; \<open>memcpy(dest, base + i, n)\<close> reads \<open>n\<close> bytes; \<open>Sstrdup(base + i)\<close> reads
  up to the first NUL and returns the new NUL-terminated buffer (its allocation is taken to
  succeed where the code does not check it).
\<close>

definition le_16 :: "byte list option \<Rightarrow> int \<Rightarrow> u16 option" where
  "le_16 b i = do {
     hi \<leftarrow> rd b (i + 1);
     lo \<leftarrow> rd b i;
     Some (push_bit 8 (ucast hi) + ucast lo) }"

definition bytes_at :: "byte list option \<Rightarrow> int \<Rightarrow> int \<Rightarrow> byte list option" where
  "bytes_at b i n = (case b of None \<Rightarrow> None
     | Some xs \<Rightarrow> if 0 \<le> i \<and> 0 \<le> n \<and> i + n \<le> int (length xs)
                  then Some (take (nat n) (drop (nat i) xs)) else None)"

definition Sstrdup :: "byte list option \<Rightarrow> int \<Rightarrow> byte list option" where
  "Sstrdup b i = (case b of None \<Rightarrow> None
     | Some xs \<Rightarrow> if 0 \<le> i \<and> 0 \<in> set (drop (nat i) xs)
                  then Some (cstr (drop (nat i) xs) @ [0]) else None)"

text \<open>
  \<open>Sstrndup(base + i, n)\<close>: at most \<open>n\<close> bytes are read, up to the first NUL.
\<close>

definition Sstrndup :: "byte list option \<Rightarrow> int \<Rightarrow> nat \<Rightarrow> byte list option" where
  "Sstrndup b i n = (case b of None \<Rightarrow> None
     | Some xs \<Rightarrow>
         if 0 \<le> i \<and> (0 \<in> set (take n (drop (nat i) xs)) \<or> n \<le> length (drop (nat i) xs))
         then Some (cstr (take n (drop (nat i) xs)) @ [0]) else None)"

text \<open>
  \<open>0 == Sstrncmp(base + i, tag, 4)\<close> for a tag without NUL: the bytes are compared in order
  up to the first difference.
\<close>

fun tag_eq :: "byte list option \<Rightarrow> int \<Rightarrow> byte list \<Rightarrow> bool option" where
  "tag_eq b i [] = Some True"
| "tag_eq b i (t # ts) =
     (case rd b i of None \<Rightarrow> None
      | Some c \<Rightarrow> if c \<noteq> t then Some False else tag_eq b (i + 1) ts)"

subsection \<open>read_puz_head\<close>

text \<open>
  \<open>read_puz_head(h, base)\<close>; \<open>malloc_ok\<close> says whether the allocation of a \<open>NULL\<close> \<open>h\<close>
  succeeds. Every field of the header is assigned.
\<close>

definition read_puz_head :: "bool \<Rightarrow> puz_head_t option \<Rightarrow> byte list option
    \<Rightarrow> puz_head_t option option" where
  "read_puz_head malloc_ok h b =
     (if h = None \<and> \<not> malloc_ok then Some None
      else do {
        v_cksum_puz \<leftarrow> le_16 b 0;
        v_magic \<leftarrow> bytes_at b 2 12;
        v_cksum_cib \<leftarrow> le_16 b 14;
        v_magic_10 \<leftarrow> bytes_at b 16 4;
        v_magic_14 \<leftarrow> bytes_at b 20 4;
        v_magic_18 \<leftarrow> bytes_at b 24 4;
        v_noise_1c \<leftarrow> le_16 b 28;
        v_scrambled_cksum \<leftarrow> le_16 b 30;
        v_noise_20 \<leftarrow> le_16 b 32;
        v_noise_22 \<leftarrow> le_16 b 34;
        v_noise_24 \<leftarrow> le_16 b 36;
        v_noise_26 \<leftarrow> le_16 b 38;
        v_noise_28 \<leftarrow> le_16 b 40;
        v_noise_2a \<leftarrow> le_16 b 42;
        v_width \<leftarrow> rd b 44;
        v_height \<leftarrow> rd b 45;
        v_clue_count \<leftarrow> le_16 b 46;
        v_x_unk_30 \<leftarrow> le_16 b 48;
        v_scrambled_tag \<leftarrow> le_16 b 50;
        Some (Some \<lparr>cksum_puz = v_cksum_puz, magic = v_magic, cksum_cib = v_cksum_cib,
          magic_10 = v_magic_10, magic_14 = v_magic_14, magic_18 = v_magic_18,
          noise_1c = v_noise_1c, scrambled_cksum = v_scrambled_cksum, noise_20 = v_noise_20,
          noise_22 = v_noise_22, noise_24 = v_noise_24, noise_26 = v_noise_26,
          noise_28 = v_noise_28, noise_2a = v_noise_2a, width = v_width, height = v_height,
          clue_count = v_clue_count, x_unk_30 = v_x_unk_30,
          scrambled_tag = v_scrambled_tag\<rparr>) })"

subsection \<open>The rebus table from its string\<close>

definition puz_clear_rtbl :: "puzzle_t \<Rightarrow> puzzle_t" where
  "puz_clear_rtbl p =
     (if rtbl p = None then p
      else p\<lparr>rtbl := None, rtbl_sz := 0, rtbl_cksum := 0, calc_rtbl_cksum := 0\<rparr>)"

text \<open>\<open>puz_rebus_count_set(puz, val)\<close>; its allocation is not checked.\<close>

definition puz_rebus_count_set :: "puzzle_t \<Rightarrow> int \<Rightarrow> puzzle_t" where
  "puz_rebus_count_set p val =
     (if 0 > val then p
      else p\<lparr>rtbl := Some (replicate (nat val) None), rtbl_sz := word_of_int val\<rparr>)"

text \<open>
  The second loop of \<open>puz_rtblstr_set\<close> over the string at \<open>start\<close>: each entry is the text
  up to the next \<open>';'\<close>. When \<open>strchr\<close> finds none the function returns with the table as
  it is.
\<close>

fun rtbl_split_loop :: "int list \<Rightarrow> byte list \<Rightarrow> byte list option list option
    \<Rightarrow> byte list option list option option" where
  "rtbl_split_loop [] start r = Some r"
| "rtbl_split_loop (i # is) start r =
     (if 59 \<notin> set start then Some r
      else (case wr r i (Some (takeWhile (\<lambda>c. c \<noteq> 59) start @ [0])) of None \<Rightarrow> None
            | Some r' \<Rightarrow> rtbl_split_loop is (tl (dropWhile (\<lambda>c. c \<noteq> 59) start)) r'))"

text \<open>\<open>puz_rtblstr_set(puz, base + i)\<close> on a puzzle that is not \<open>NULL\<close>: the puzzle afterwards.\<close>

definition puz_rtblstr_set :: "puzzle_t \<Rightarrow> byte list option \<Rightarrow> int \<Rightarrow> puzzle_t option" where
  "puz_rtblstr_set p b i = (case b of None \<Rightarrow> None
     | Some xs \<Rightarrow>
         if 0 \<le> i \<and> 0 \<in> set (drop (nat i) xs)
         then (let p = puz_clear_rtbl p;
                   val = cstr (drop (nat i) xs);
                   count = int (length (filter (\<lambda>c. c = 59) val));
                   p = puz_rebus_count_set p count
               in do {
                 r \<leftarrow> rtbl_split_loop [0..uint (rtbl_sz p) - 1] val (rtbl p);
                 Some (p\<lparr>rtbl := r\<rparr>) })
         else None)"

subsection \<open>The section loaders\<close>

text \<open>
  Each section loader returns the number of bytes it read (0 on an error) and the puzzle
  afterwards; it gets the buffer and the offset of the section's checksum.
  In \<open>load_grbs_bin\<close>, \<open>malloc_ok\<close> says whether the allocation of the rebus grid succeeds.
  \<open>free\<close> does not change the pointer it is given: where the code frees \<open>puz->grbs\<close> without
  clearing it, the field keeps its value.
\<close>

definition RTBL :: "byte list" where
  "RTBL = [82, 84, 66, 76]"

definition load_grbs_bin :: "bool \<Rightarrow> puzzle_t option \<Rightarrow> byte list option \<Rightarrow> int \<Rightarrow> u16
    \<Rightarrow> (nat \<times> puzzle_t option) option" where
  "load_grbs_bin malloc_ok puz b off section_sz = (case puz of None \<Rightarrow> Some (0, None)
     | Some p \<Rightarrow> do {
         let bd_sz = uint (width (header p)) * uint (height (header p));
         ck \<leftarrow> le_16 b off;
         let p = p\<lparr>grbs_cksum := ck\<rparr>;
         if \<not> malloc_ok then Some (0, Some (p\<lparr>grbs := None\<rparr>))
         else do {
           g \<leftarrow> bytes_at b (off + 2) bd_sz;
           let p = p\<lparr>grbs := Some g\<rparr>;
           let i = 2 + bd_sz + 1;
           let rbssum = sum_list (map uint g);
           let p = (if rbssum = 0 then p\<lparr>grbs := None\<rparr> else p);
           is_rtbl \<leftarrow> tag_eq b (off + i) RTBL;
           if \<not> is_rtbl
           then (if rbssum \<noteq> 0 then Some (0, Some p) else Some (nat i, Some p))
           else do {
             let i = i + 4;
             rtbl_strsz \<leftarrow> le_16 b (off + i);
             let i = i + 2;
             p \<leftarrow> (if rbssum \<noteq> 0
                   then do { c \<leftarrow> le_16 b (off + i); Some (p\<lparr>rtbl_cksum := c\<rparr>) }
                   else Some p);
             let i = i + 2;
             p \<leftarrow> (if rbssum \<noteq> 0 then puz_rtblstr_set p b (off + i) else Some p);
             let i = i + uint rtbl_strsz + 1;
             Some (nat i, Some p) } } })"

definition load_ltim_bin :: "puzzle_t option \<Rightarrow> byte list option \<Rightarrow> int \<Rightarrow> u16
    \<Rightarrow> (nat \<times> puzzle_t option) option" where
  "load_ltim_bin puz b off ltim_sz = (case puz of None \<Rightarrow> Some (0, None)
     | Some p \<Rightarrow> do {
         ck \<leftarrow> le_16 b off;
         let p = p\<lparr>ltim_cksum := ck\<rparr>;
         t \<leftarrow> strncpy (calloc (uint ltim_sz + 1)) 0 b (off + 2) (uint ltim_sz);
         Some (nat (2 + uint ltim_sz + 1), Some (p\<lparr>ltim := t\<rparr>)) })"

definition load_gext_bin :: "puzzle_t option \<Rightarrow> byte list option \<Rightarrow> int
    \<Rightarrow> (nat \<times> puzzle_t option) option" where
  "load_gext_bin puz b off = (case puz of None \<Rightarrow> Some (0, None)
     | Some p \<Rightarrow> do {
         let bd_sz = uint (width (header p)) * uint (height (header p));
         ck \<leftarrow> le_16 b off;
         let p = p\<lparr>gext_cksum := ck\<rparr>;
         g \<leftarrow> bytes_at b (off + 2) bd_sz;
         Some (nat (2 + bd_sz + 1), Some (p\<lparr>gext := Some g\<rparr>)) })"

text \<open>The loop of \<open>load_rusr_bin\<close> over the cells; \<open>MAX_REBUS_SIZE\<close> is 100.\<close>

fun rusr_loop :: "byte list option \<Rightarrow> int \<Rightarrow> int list \<Rightarrow> byte list option list option \<Rightarrow> int
    \<Rightarrow> (byte list option list option \<times> int) option" where
  "rusr_loop b off [] r i = Some (r, i)"
| "rusr_loop b off (j # js) r i =
     (case rd b (off + i) of None \<Rightarrow> None
      | Some c \<Rightarrow>
          if c \<noteq> 0
          then (case Sstrndup b (off + i) 100 of None \<Rightarrow> None
                | Some usr_rebus \<Rightarrow>
                    (case wr r j (Some usr_rebus) of None \<Rightarrow> None
                     | Some r' \<Rightarrow> rusr_loop b off js r' (i + int (length (cstr usr_rebus)) + 1)))
          else (case wr r j None of None \<Rightarrow> None
                | Some r' \<Rightarrow> rusr_loop b off js r' (i + 1)))"

definition load_rusr_bin :: "puzzle_t option \<Rightarrow> byte list option \<Rightarrow> int
    \<Rightarrow> (nat \<times> puzzle_t option) option" where
  "load_rusr_bin puz b off = (case puz of None \<Rightarrow> Some (0, None)
     | Some p \<Rightarrow> do {
         let bd_sz = uint (width (header p)) * uint (height (header p));
         ck \<leftarrow> le_16 b off;
         let p = p\<lparr>rusr_cksum := ck\<rparr>;
         (r, i) \<leftarrow> rusr_loop b off [0..bd_sz - 1] (Some (replicate (nat bd_sz) None)) 2;
         Some (nat (i + 1), Some (p\<lparr>rusr := r, rusr_sz := word_of_int (i - 2)\<rparr>)) })"

subsection \<open>puz_load_bin\<close>

text \<open>
  Which of the checked allocations of \<open>puz_load_bin\<close> succeed: the puzzle itself, the clue
  array, the copy of clue \<open>j\<close>, and the rebus grid.
\<close>

record alloc_t =
  puz_ok :: bool
  clues_ok :: bool
  clue_ok :: "int \<Rightarrow> bool"
  grbs_ok :: bool

text \<open>
  The loop \<open>for(j = 0; i < sz && j < puz->header.clue_count; j++)\<close> over the values of \<open>j\<close>
  still to come. The result says whether the function goes on (it returns \<open>NULL\<close> when a
  clue cannot be copied), and gives the clues, \<open>i\<close> and \<open>j\<close> after the loop.
\<close>

fun clue_loop :: "alloc_t \<Rightarrow> byte list option \<Rightarrow> int \<Rightarrow> int \<Rightarrow> int list
    \<Rightarrow> byte list option list option \<Rightarrow> int
    \<Rightarrow> (bool \<times> byte list option list option \<times> int \<times> int) option" where
  "clue_loop al b size' n [] cl i = Some (True, cl, i, n)"
| "clue_loop al b size' n (j # js) cl i =
     (if \<not> i < size' then Some (True, cl, i, j)
      else (case Sstrdup b i of None \<Rightarrow> None
            | Some c \<Rightarrow>
                if \<not> clue_ok al j
                then (case wr cl j None of None \<Rightarrow> None
                      | Some cl' \<Rightarrow> Some (False, cl', i, j))
                else (case wr cl j (Some c) of None \<Rightarrow> None
                      | Some cl' \<Rightarrow>
                          clue_loop al b size' n js cl' (i + int (length (cstr c)) + 1))))"

text \<open>
  One turn of the loop \<open>while (i+5 < sz)\<close>: whether the loop is left with \<open>puz = NULL\<close>,
  the number of bytes \<open>i\<close> advances by beyond the six of the section header, and the puzzle
  afterwards.
\<close>

definition GRBS :: "byte list" where
  "GRBS = [71, 82, 66, 83]"

definition LTIM :: "byte list" where
  "LTIM = [76, 84, 73, 77]"

definition GEXT :: "byte list" where
  "GEXT = [71, 69, 88, 84]"

definition RUSR :: "byte list" where
  "RUSR = [82, 85, 83, 82]"

definition after_section :: "bool \<Rightarrow> (nat \<times> puzzle_t option) option
    \<Rightarrow> (bool \<times> nat \<times> puzzle_t option) option" where
  "after_section didmalloc r = (case r of None \<Rightarrow> None
     | Some (advance, puz) \<Rightarrow>
         if advance = 0 \<and> didmalloc then Some (True, advance, None)
         else Some (False, advance, puz))"

definition section_step :: "alloc_t \<Rightarrow> bool \<Rightarrow> byte list option \<Rightarrow> int \<Rightarrow> puzzle_t option
    \<Rightarrow> (bool \<times> nat \<times> puzzle_t option) option" where
  "section_step al didmalloc b i puz = do {
     section_sz \<leftarrow> le_16 b (i + 4);
     is_grbs \<leftarrow> tag_eq b i GRBS;
     if is_grbs then after_section didmalloc (load_grbs_bin (grbs_ok al) puz b (i + 6) section_sz)
     else do {
       is_ltim \<leftarrow> tag_eq b i LTIM;
       if is_ltim then after_section didmalloc (load_ltim_bin puz b (i + 6) section_sz)
       else do {
         is_gext \<leftarrow> tag_eq b i GEXT;
         if is_gext then after_section didmalloc (load_gext_bin puz b (i + 6))
         else do {
           is_rusr \<leftarrow> tag_eq b i RUSR;
           if is_rusr then after_section didmalloc (load_rusr_bin puz b (i + 6))
           else Some (False, unat section_sz + 1, puz) } } } }"

function section_loop :: "alloc_t \<Rightarrow> bool \<Rightarrow> byte list option \<Rightarrow> int \<Rightarrow> int
    \<Rightarrow> puzzle_t option \<Rightarrow> puzzle_t option option" where
  "section_loop al didmalloc b size' i puz =
     (if i + 5 < size'
      then (case section_step al didmalloc b i puz of None \<Rightarrow> None
            | Some (left, advance, puz') \<Rightarrow>
                if left then Some puz'
                else section_loop al didmalloc b size' (i + 6 + int advance) puz')
      else Some puz)"
  by pat_completeness auto
termination
  by (relation "measure (\<lambda>(al, didmalloc, b, size', i, puz). nat (size' - i))") auto

declare section_loop.simps [simp del]

text \<open>
  \<open>puz_load_bin(puz, base, sz)\<close>: the result is \<open>NULL\<close> or the filled-in puzzle. The
  allocations of the solution, the grid and the copied strings are not checked in the code
  and are taken to succeed.
\<close>

definition puz_load_bin :: "alloc_t \<Rightarrow> puzzle_t option \<Rightarrow> byte list option \<Rightarrow> int
    \<Rightarrow> puzzle_t option option" where
  "puz_load_bin al puz b size' =
     (if b = None \<or> size' < 0x34 then Some None
      else if puz = None \<and> \<not> puz_ok al then Some None
      else do {
        let didmalloc = (puz = None);
        let p = zeroed_puzzle\<lparr>base := b, sz := size'\<rparr>;
        h \<leftarrow> read_puz_head True (Some (header p)) b;
        case h of None \<Rightarrow> Some None
        | Some h \<Rightarrow> do {
            let p = p\<lparr>header := h\<rparr>;
            c \<leftarrow> bytes_at b 0x2c 8;
            let p = p\<lparr>cib := c\<rparr>;
            let i = 0x34;
            let bd_sz = uint (width (header p)) * uint (height (header p));
            s \<leftarrow> strncpy (calloc (1 + bd_sz)) 0 b i bd_sz;
            s \<leftarrow> wr s bd_sz 0;
            let p = p\<lparr>solution := s\<rparr>;
            let i = i + bd_sz;
            g \<leftarrow> strncpy (calloc (1 + bd_sz)) 0 b i bd_sz;
            let p = p\<lparr>grid := g\<rparr>;
            let i = i + bd_sz;
            t \<leftarrow> Sstrdup b i;
            let p = p\<lparr>title := Some t\<rparr>;
            let i = i + int (length (cstr t)) + 1;
            a \<leftarrow> Sstrdup b i;
            let p = p\<lparr>author := Some a\<rparr>;
            let i = i + int (length (cstr a)) + 1;
            c \<leftarrow> Sstrdup b i;
            let p = p\<lparr>copyright := Some c\<rparr>;
            let i = i + int (length (cstr c)) + 1;
            let n = uint (clue_count (header p));
            if \<not> clues_ok al then Some None
            else do {
              (go_on, cl, i, j) \<leftarrow> clue_loop al b size' n [0..n - 1] (Some (replicate (nat n) None)) i;
              let p = p\<lparr>clues := cl\<rparr>;
              if \<not> go_on then Some None
              else if j \<noteq> n then Some None
              else do {
                let p = p\<lparr>notes := None\<rparr>;
                (p, i) \<leftarrow> (if i < size'
                   then do {
                     nt \<leftarrow> Sstrdup b i;
                     let p = p\<lparr>notes := Some nt, notes_sz := word_of_int (int (length (cstr nt)))\<rparr>;
                     Some (p, i + sint (notes_sz p) + 1) }
                   else Some (p, i));
                let p = p\<lparr>grbs := None, rtbl := None, rtbl_sz := 0, ltim := None, gext := None,
                           rusr := None, rusr_sz := 0\<rparr>;
                section_loop al didmalloc b size' i (Some p) } } } })"

section \<open>Well-formed strings and string arrays\<close>

text \<open>
  A pointer is a C string when it is not \<open>NULL\<close> and its allocation holds a NUL; \<open>slen\<close> is
  then its \<open>strlen\<close>. \<open>strs_ok a n\<close> says that the first \<open>n\<close> elements of the array \<open>a\<close> can
  be read and are C strings (nothing is read when \<open>n \<le> 0\<close>); \<open>entries a n\<close> are those
  elements.
\<close>

definition is_cstr :: "byte list option \<Rightarrow> bool" where
  "is_cstr x = (case x of None \<Rightarrow> False | Some b \<Rightarrow> 0 \<in> set b)"

definition slen :: "byte list option \<Rightarrow> int" where
  "slen x = int (length (cbytes x))"

definition entries :: "'a list option \<Rightarrow> int \<Rightarrow> 'a list" where
  "entries a n = (case a of None \<Rightarrow> [] | Some xs \<Rightarrow> take (nat n) xs)"

definition strs_ok :: "byte list option list option \<Rightarrow> int \<Rightarrow> bool" where
  "strs_ok a n = (n \<le> 0 \<or> (case a of None \<Rightarrow> False
      | Some xs \<Rightarrow> n \<le> int (length xs) \<and> list_all is_cstr (take (nat n) xs)))"








section \<open>The checksummed pieces, as the specification words them\<close>

text \<open>
  A string with its NUL when it is not empty; the bytes of the secondary checksum (title,
  author and copyright with their NULs when non-empty, every clue without its NUL, the
  notes with their NUL when non-empty); a 16-bit value in little-endian order; the
  8-byte CIB block; and when \<open>n\<close> bytes can be read through a pointer.
\<close>

definition with_nul :: "byte list option \<Rightarrow> byte list" where
  "with_nul s = (if cbytes s \<noteq> [] then cbytes s @ [0] else [])"

definition secondary_bytes :: "puzzle_t \<Rightarrow> byte list" where
  "secondary_bytes p = with_nul (title p) @ with_nul (author p) @ with_nul (copyright p)
     @ concat (map cbytes (entries (clues p) (uint (clue_count (header p)))))
     @ with_nul (notes p)"

definition le16 :: "u16 \<Rightarrow> byte list" where
  "le16 x = [ucast x, ucast (drop_bit 8 x)]"

definition CIB8 :: "puzzle_t \<Rightarrow> byte list" where
  "CIB8 p = [width (header p), height (header p)] @ le16 (clue_count (header p))
     @ le16 (x_unk_30 (header p)) @ le16 (scrambled_tag (header p))"

definition readable :: "byte list option \<Rightarrow> int \<Rightarrow> bool" where
  "readable x n = (case x of None \<Rightarrow> n \<le> 0 | Some b \<Rightarrow> n \<le> int (length b))"

text \<open>What the secondary checksum reads.\<close>

definition cksum2_wf :: "puzzle_t \<Rightarrow> bool" where
  "cksum2_wf p = (is_cstr (title p) \<and> is_cstr (author p) \<and> is_cstr (copyright p)
     \<and> strs_ok (clues p) (uint (clue_count (header p))) \<and> is_cstr (notes p))"

text \<open>
  The user rebus grid as \<open>puz_rusrstr_get\<close> serialises it (every cell followed by a NUL, a
  \<open>NULL\<close> cell being empty), and what \<open>puz_cksums_calc\<close> reads: the secondary checksum's
  strings, \<open>W\<cdot>H\<close> bytes of solution and grid, and for the sections that are present the
  rebus grid with the rebus table strings, the timer string, the extras grid, and a user
  rebus grid whose cached size \<open>rusr_sz\<close> is the size of its serialisation.
\<close>

definition rusr_bytes :: "byte list option list \<Rightarrow> byte list" where
  "rusr_bytes cells = concat (map (\<lambda>c. cbytes c @ [0]) cells)"

definition rusr_ok :: "puzzle_t \<Rightarrow> bool" where
  "rusr_ok p = (case rusr p of None \<Rightarrow> True
     | Some cells \<Rightarrow>
         uint (width (header p)) * uint (height (header p)) \<le> int (length cells)
       \<and> list_all (\<lambda>c. c = None \<or> is_cstr c)
            (take (nat (uint (width (header p)) * uint (height (header p)))) cells)
       \<and> unat (rusr_sz p) = length (rusr_bytes
            (take (nat (uint (width (header p)) * uint (height (header p)))) cells)))"

definition cksum_wf :: "puzzle_t \<Rightarrow> bool" where
  "cksum_wf p = (cksum2_wf p
     \<and> readable (solution p) (uint (width (header p)) * uint (height (header p)))
     \<and> readable (grid p) (uint (width (header p)) * uint (height (header p)))
     \<and> (grbs p = None \<or>
          (readable (grbs p) (uint (width (header p)) * uint (height (header p)))
           \<and> strs_ok (rtbl p) (sint (rtbl_sz p))))
     \<and> (ltim p = None \<or> is_cstr (ltim p))
     \<and> (gext p = None \<or> readable (gext p) (uint (width (header p)) * uint (height (header p))))
     \<and> rusr_ok p)"

section \<open>The scrambler steps, as the specification and the source comments word them\<close>

text \<open>
  \<open>scr_index L i\<close> is the position \<open>unscramble_string\<close> writes byte \<open>i\<close> of a string of
  length \<open>L\<close> to, and \<open>scr_source L p\<close> the byte that ends at position \<open>p\<close>. The unscramble
  step and the unshift step are the results of \<open>unscramble_string\<close> and \<open>unshift_string\<close>
  on strings.
\<close>

definition scr_index :: "nat \<Rightarrow> nat \<Rightarrow> nat" where
  "scr_index L i = (if even i then L div 2 + i div 2 else i div 2)"

definition scr_source :: "nat \<Rightarrow> nat \<Rightarrow> nat" where
  "scr_source L p = (if p < L div 2 then 2 * p + 1 else 2 * (p - L div 2))"

definition unscramble_step :: "byte list \<Rightarrow> byte list" where
  "unscramble_step t = map (\<lambda>p. t ! scr_source (length t) p) [0..<length t]"

definition unshift_step :: "nat \<Rightarrow> byte list \<Rightarrow> byte list" where
  "unshift_step k t = drop (length t - k) t @ take (length t - k) t"

text \<open>
  The specification's scramble step (\<open>t'[L/2 + i/2] = t[i]\<close> for even \<open>i\<close>,
  \<open>t'[i/2] = t[i]\<close> for odd \<open>i\<close>) and its shift by \<open>k\<close> (the prefix of length \<open>k\<close> moves to
  the end); and the scrambled form of a string \<open>s\<close> as the comment of \<open>unscramble_string\<close>
  gives it, \<open>[s[len/2], s[0], s[1 + len/2], s[1], ...]\<close>.
\<close>

definition spec_scramble :: "byte list \<Rightarrow> byte list" where
  "spec_scramble t =
     fold (\<lambda>i t'. t'[(if even i then length t div 2 + i div 2 else i div 2) := t ! i])
       [0..<length t] t"

definition spec_shift :: "nat \<Rightarrow> byte list \<Rightarrow> byte list" where
  "spec_shift k t = drop k t @ take k t"

definition scrambled_layout :: "byte list \<Rightarrow> byte list" where
  "scrambled_layout s =
     map (\<lambda>i. if even i then s ! (length s div 2 + i div 2) else s ! (i div 2)) [0..<length s]"

text \<open>
  The canonical solution string of the specification: the cells that are not \<open>'.'\<close> in
  column-major order, the cell of column \<open>x\<close> and row \<open>y\<close> being \<open>sol[y\<cdot>W + x]\<close>; and the
  solution after a string \<open>s\<close> has been written back into those cells in that order.
\<close>

definition canonical_cells :: "nat \<Rightarrow> nat \<Rightarrow> nat list" where
  "canonical_cells W H = concat (map (\<lambda>x. map (\<lambda>y. y * W + x) [0..<H]) [0..<W])"

definition canonical_solution :: "nat \<Rightarrow> nat \<Rightarrow> byte list \<Rightarrow> byte list" where
  "canonical_solution W H sol = filter (\<lambda>c. c \<noteq> 46) (map (\<lambda>k. sol ! k) (canonical_cells W H))"

fun write_back :: "nat list \<Rightarrow> byte list \<Rightarrow> byte list \<Rightarrow> byte list" where
  "write_back [] sol s = sol"
| "write_back (k # ks) sol s =
     (if sol ! k \<noteq> 46 then write_back ks (sol[k := hd s]) (tl s) else write_back ks sol s)"

section \<open>The decoding rounds of puz_unlock_solution in closed form\<close>

text \<open>
  What one pass of the inner loop of \<open>puz_unlock_solution\<close> does to one byte, and to a whole
  string: byte \<open>j\<close> loses \<open>digits[j % 4]\<close> and, when it falls below \<open>'A'\<close>, gains 26.
\<close>

definition sub_char :: "byte \<Rightarrow> int \<Rightarrow> byte" where
  "sub_char c d = (let c1 = c - word_of_int d in if c1 < 65 then c1 + 26 else c1)"

definition subtract_step :: "int list \<Rightarrow> byte list \<Rightarrow> byte list" where
  "subtract_step digits t = map (\<lambda>j. sub_char (t ! j) (digits ! (j mod 4))) [0..<length t]"

text \<open>
  One round of the loop \<open>for(i = 3; i >= 0; i--)\<close> on a string: unscramble, unshift by the
  digit \<open>d\<close>, subtract the digits. \<open>decode_rounds\<close> runs the rounds for the given digit indices;
  it is \<open>Inl ()\<close> when a digit exceeds the length of the string (the \<open>return -4\<close> of the code),
  and otherwise gives the string and the contents of the second workspace.
\<close>

definition decode_round :: "int list \<Rightarrow> int \<Rightarrow> byte list \<Rightarrow> byte list" where
  "decode_round digits d t = subtract_step digits (unshift_step (nat d) (unscramble_step t))"

fun decode_rounds :: "int list \<Rightarrow> int list \<Rightarrow> byte list \<Rightarrow> byte list
    \<Rightarrow> unit + byte list \<times> byte list" where
  "decode_rounds digits [] t w2 = Inr (t, w2)"
| "decode_rounds digits (i # is) t w2 =
     (if int (length t) < digits ! nat i then Inl ()
      else decode_rounds digits is (decode_round digits (digits ! nat i) t) (unscramble_step t @ [0]))"

text \<open>
  The bytes that are not \<open>'.'\<close>. \<open>checked_bytes cand w2\<close> are the bytes the code checksums: it
  copies the candidate \<open>cand\<close> without its \<open>'.'\<close> bytes to the front of the second workspace
  \<open>w2\<close> and checksums as many bytes as the candidate has.
\<close>

definition non_dots :: "byte list \<Rightarrow> byte list" where
  "non_dots t = filter (\<lambda>c. c \<noteq> 46) t"

definition checked_bytes :: "byte list \<Rightarrow> byte list \<Rightarrow> byte list" where
  "checked_bytes cand w2 =
     take (length cand) (non_dots cand @ drop (length (non_dots cand)) w2)"

text \<open>
  The string after the rounds for the digits 3, 2 and 1, the candidate after all four
  rounds, and the bytes the code checksums for a canonical solution string \<open>t\<close>.
\<close>

definition rounds3 :: "int list \<Rightarrow> byte list \<Rightarrow> byte list" where
  "rounds3 digits t =
     decode_round digits (digits ! 1) (decode_round digits (digits ! 2)
       (decode_round digits (digits ! 3) t))"

definition candidate :: "int list \<Rightarrow> byte list \<Rightarrow> byte list" where
  "candidate digits t = decode_round digits (digits ! 0) (rounds3 digits t)"

definition checked :: "int list \<Rightarrow> byte list \<Rightarrow> byte list" where
  "checked digits t =
     checked_bytes (candidate digits t) (unscramble_step (rounds3 digits t) @ [0])"


text \<open>
  The puzzles on which the loops of \<open>formatted_solution\<close> and \<open>unformat_unlocked_sol\<close> visit
  every cell once and stay inside the solution buffer: the board is square, the buffer
  holds at least its cells, and no cell is NUL.
\<close>

definition unlock_wf :: "puzzle_t \<Rightarrow> bool" where
  "unlock_wf p = (width (header p) = height (header p) \<and>
     (case solution p of None \<Rightarrow> False
      | Some s \<Rightarrow> unat (width (header p)) * unat (height (header p)) \<le> length s
          \<and> 0 \<notin> set (take (unat (width (header p)) * unat (height (header p))) s)))"

text \<open>
  The canonical solution string of a puzzle, and its solution buffer after a string has
  been written back into the cells that are not \<open>'.'\<close>.
\<close>

definition puz_canonical :: "puzzle_t \<Rightarrow> byte list" where
  "puz_canonical p = (case solution p of None \<Rightarrow> []
     | Some s \<Rightarrow> canonical_solution (unat (width (header p))) (unat (height (header p))) s)"

definition puz_written_back :: "puzzle_t \<Rightarrow> byte list \<Rightarrow> byte list option" where
  "puz_written_back p f = (case solution p of None \<Rightarrow> None
     | Some s \<Rightarrow> Some (write_back
         (canonical_cells (unat (width (header p))) (unat (height (header p)))) s f))"

text \<open>
  The result of \<open>puz_unlock_solution\<close> on such a puzzle when the allocation of
  \<open>formatted_solution\<close> succeeds, in terms of the strings above; \<open>a1\<close> and \<open>a2\<close> say whether the
  two workspace allocations succeed.
\<close>

definition unlock_result :: "bool \<Rightarrow> bool \<Rightarrow> puzzle_t \<Rightarrow> u16 \<Rightarrow> int \<times> puzzle_t option" where
  "unlock_result a1 a2 p code = (let ds = code_digits code; t = puz_canonical p in
     if scrambled_tag (header p) = 0 then (1, Some p)
     else if 0 \<in> set ds then (-2, Some p)
     else if \<not> (a1 \<and> a2) then (-3, Some p)
     else if \<exists>d\<in>set ds. int (length t) < d then (-4, Some p)
     else if cksum_loop (checked ds t) 0 \<noteq> scrambled_cksum (header p) then (2, Some p)
     else (0, Some (p\<lparr>header := (header p)\<lparr>scrambled_tag := 0, scrambled_cksum := 0\<rparr>,
                       solution := puz_written_back p (candidate ds t @ [0])\<rparr>)))"

section \<open>Example puzzles\<close>

text \<open>A string literal as bytes, and as a freshly duplicated C string (\<open>Sstrdup\<close>).\<close>

definition bytes_of :: "string \<Rightarrow> byte list" where
  "bytes_of s = map of_char s"

definition c_string :: "string \<Rightarrow> byte list option" where
  "c_string s = Some (bytes_of s @ [0])"

text \<open>
  A 3 by 3 puzzle with empty metadata, three clues and no section, built from the
  initialised puzzle.
\<close>

definition example_puzzle :: puzzle_t where
  "example_puzzle = (case puz_init True None of
       None \<Rightarrow> zeroed_puzzle
     | Some p \<Rightarrow> p\<lparr>header := (header p)\<lparr>width := 3, height := 3, clue_count := 3\<rparr>,
           solution := c_string ''ABC...DEF'', grid := c_string ''---...---'',
           title := c_string [], author := c_string [], copyright := c_string [],
           clues := Some [c_string ''a1'', c_string ''a2'', c_string ''d1''],
           notes := c_string [], notes_sz := 0\<rparr>)"

text \<open>
  A 2 by 2 puzzle with every section: a rebus grid with a one-entry table, a timer,
  one circled square and one user rebus entry.
\<close>

definition example_sections :: puzzle_t where
  "example_sections = (case puz_init True None of
       None \<Rightarrow> zeroed_puzzle
     | Some p \<Rightarrow> p\<lparr>header := (header p)\<lparr>width := 2, height := 2, clue_count := 2\<rparr>,
           solution := c_string ''AB.C'', grid := c_string ''--.-'',
           title := c_string ''T'', author := c_string ''Au'', copyright := c_string [],
           clues := Some [c_string ''one'', c_string ''two''],
           notes := c_string ''hi'', notes_sz := 2,
           grbs := Some [2, 0, 0, 0], rtbl_sz := 1, rtbl := Some [c_string '' 1:CAT''],
           ltim := c_string ''12,0'',
           gext := Some [128, 0, 0, 0],
           rusr := Some [c_string ''XY'', None, None, None], rusr_sz := 6\<rparr>)"

text \<open>A locked 3 wide, 2 high puzzle with no black square.\<close>

definition example_3x2 :: puzzle_t where
  "example_3x2 = example_puzzle\<lparr>header := (header example_puzzle)\<lparr>width := 3, height := 2,
       scrambled_tag := 4, scrambled_cksum := 1\<rparr>, solution := c_string ''ABCDEF'',
       grid := c_string ''------''\<rparr>"

text \<open>
  The 3 by 3 example locked: its solution \<open>ABC...DEF\<close> is the scrambled form, and the stored
  checksum is the one of the solution that the code 1111, respectively 1112, decodes.
\<close>

definition example_locked :: puzzle_t where
  "example_locked = example_puzzle\<lparr>header := (header example_puzzle)\<lparr>scrambled_tag := 4,
       scrambled_cksum := 30885\<rparr>\<rparr>"

definition example_locked_1112 :: puzzle_t where
  "example_locked_1112 = example_puzzle\<lparr>header := (header example_puzzle)\<lparr>scrambled_tag := 4,
       scrambled_cksum := 171\<rparr>\<rparr>"

text \<open>
  A binary file of a 2 wide, 1 high puzzle with one clue and empty notes, followed by a
  GRBS section with the given rebus grid and no RTBL, and an LTIM section. The file has
  85 bytes; the checksum of the GRBS section is at offset 68. \<open>all_ok\<close> lets every
  allocation succeed, and \<open>example_head_2x1\<close> is a puzzle with the header of that size.
\<close>

definition example_file_head :: "byte list" where
  "example_file_head = [0, 0] @ FILE_MAGIC @ [0, 0] @ replicate 8 0 @ VER_MAGIC
     @ replicate 16 0 @ [2, 1] @ [1, 0] @ [1, 0] @ [0, 0]"

definition example_file_body :: "byte list" where
  "example_file_body = bytes_of ''AB'' @ bytes_of ''--'' @ [0] @ [0] @ [0]
     @ bytes_of ''c'' @ [0] @ [0]"

definition example_file :: "byte list \<Rightarrow> byte list" where
  "example_file rebus_grid = example_file_head @ example_file_body
     @ bytes_of ''GRBS'' @ [2, 0] @ [0, 0] @ rebus_grid @ [0]
     @ bytes_of ''LTIM'' @ [3, 0] @ [0, 0] @ bytes_of ''0,0'' @ [0]"

definition all_ok :: alloc_t where
  "all_ok = \<lparr>puz_ok = True, clues_ok = True, clue_ok = (\<lambda>j. True), grbs_ok = True\<rparr>"

definition example_head_2x1 :: puzzle_t where
  "example_head_2x1 = zeroed_puzzle\<lparr>header := zeroed_head\<lparr>width := 2, height := 1\<rparr>\<rparr>"

section \<open>Properties of the checksum primitive\<close>

lemma cksum_loop_append: "cksum_loop (a @ b) iv = cksum_loop b (cksum_loop a iv)"
  by (induction a arbitrary: iv) simp_all

lemma puz_cksum_region_whole [simp]:
  "puz_cksum_region (Some a) (int (length a)) iv = Some (cksum_loop a iv)"
  by (simp add: puz_cksum_region_def)

lemma puz_cksum_region_take:
  "n \<le> length a \<Longrightarrow> puz_cksum_region (Some a) (int n) iv = Some (cksum_loop (take n a) iv)"
  by (simp add: puz_cksum_region_def)

lemma drop_bit_1_and_top: "drop_bit 1 (c :: u16) AND 0x8000 = 0"
proof (rule bit_word_eqI)
  fix n assume "n < LENGTH(16)"
  have "\<not> (bit (drop_bit 1 c) n \<and> bit (0x8000 :: u16) n)"
  proof
    assume h: "bit (drop_bit 1 c) n \<and> bit (0x8000 :: u16) n"
    have "(0x8000 :: u16) = push_bit 15 1" by simp
    with h have "n = 15" by (simp only: bit_push_bit_iff bit_1_iff) simp
    with h have "bit c 16" by (simp add: bit_drop_bit_eq)
    then show False by (simp add: bit_word_iff_drop_bit_and)
  qed
  then show "bit (drop_bit 1 c AND 0x8000) n = bit (0 :: u16) n"
    by (simp add: bit_and_iff)
qed

text \<open>
  C8. \<open>puz_cksum_region\<close> composes over concatenation: the checksum of \<open>a || b\<close> from \<open>iv\<close>
  is the checksum of \<open>b\<close> started from the checksum of \<open>a\<close> from \<open>iv\<close> (and all three
  calls return). Each byte step shifts the 16-bit accumulator right by one bit, puts the
  bit shifted out back in as \<open>0x8000\<close> (adding it sets exactly that bit, as an OR would),
  and adds the byte modulo \<open>2^16\<close>.
\<close>

theorem puz_cksum_region_concat:
  "puz_cksum_region (Some (a @ b)) (int (length (a @ b))) iv
     = puz_cksum_region (Some a) (int (length a)) iv
         \<bind> puz_cksum_region (Some b) (int (length b))
   \<and> puz_cksum_region (Some (a @ b)) (int (length (a @ b))) iv
     = Some (fold (\<lambda>x c. (drop_bit 1 c OR (if bit c 0 then 0x8000 else 0)) + ucast x) (a @ b) iv)"
proof -
  have step: "cksum_step c x = (drop_bit 1 c OR (if bit c 0 then 0x8000 else 0)) + ucast x"
    for c :: u16 and x :: byte
  proof -
    have "drop_bit 1 c + 0x8000 = drop_bit 1 c OR 0x8000"
      using drop_bit_1_and_top [of c] by (rule disjunctive_add_eq_or)
    moreover have "(c AND 1 \<noteq> 0) = bit c 0"
      by (simp add: and_one_eq bit_0 mod_2_eq_odd)
    ultimately show ?thesis by (simp add: cksum_step_def)
  qed
  have loop: "cksum_loop xs c = fold (\<lambda>x c. (drop_bit 1 c OR (if bit c 0 then 0x8000 else 0)) + ucast x) xs c"
    for xs c
    by (induction xs arbitrary: c) (simp_all only: cksum_loop.simps fold_simps step)
  have "puz_cksum_region (Some (a @ b)) (int (length (a @ b))) iv = Some (cksum_loop (a @ b) iv)"
    by (rule puz_cksum_region_whole)
  moreover have "puz_cksum_region (Some a) (int (length a)) iv
      \<bind> puz_cksum_region (Some b) (int (length b)) = Some (cksum_loop b (cksum_loop a iv))"
    by simp
  ultimately show ?thesis
    by (simp only: cksum_loop_append loop [symmetric] simp_thms)
qed

section \<open>Properties of puz_size\<close>

lemma Sstrlen_cstr: "is_cstr x \<Longrightarrow> Sstrlen x = Some (nat (slen x))"
  by (auto simp: is_cstr_def Sstrlen_def slen_def cbytes_def split: option.splits)

lemma upto_map_nat: "[0..int k - 1] = map int [0..<k]"
proof (induction k)
  case 0
  then show ?case by simp
next
  case (Suc k)
  have "[0..int (Suc k) - 1] = [0..int k - 1] @ [int k]"
    using upto_rec2 [of 0 "int k"] by simp
  with Suc show ?case by simp
qed

lemma upto_map_int: "[0..n - 1] = map int [0..<nat n]"
proof (cases "0 \<le> n")
  case True
  then show ?thesis using upto_map_nat [of "nat n"] by simp
next
  case False then show ?thesis by simp
qed

lemma sum_loop_all:
  "(\<And>i. i \<in> set xs \<Longrightarrow> f i = Some (g i)) \<Longrightarrow> sum_loop f xs acc = Some (acc + sum_list (map g xs))"
  by (induction xs arbitrary: acc) (simp_all add: add.assoc)

lemma rd_entries:
  "strs_ok a n \<Longrightarrow> i \<in> set [0..n - 1] \<Longrightarrow> rd a i = Some (entries a n ! nat i) \<and> is_cstr (entries a n ! nat i)"
  by (auto simp: strs_ok_def rd_def entries_def list_all_length split: option.splits)

lemma sum_entries:
  "strs_ok a n \<Longrightarrow> sum_list (map (\<lambda>i. g (entries a n ! nat i)) [0..n - 1]) = sum_list (map g (entries a n))"
proof -
  assume ok: "strs_ok a n"
  have len: "length (entries a n) = nat n"
    using ok by (auto simp: strs_ok_def entries_def split: option.splits)
  have "map (\<lambda>i. g (entries a n ! nat i)) [0..n - 1] = map g (map (\<lambda>k. entries a n ! k) [0..<nat n])"
    by (simp add: upto_map_int comp_def)
  also have "map (\<lambda>k. entries a n ! k) [0..<nat n] = entries a n"
    using len by (metis map_nth)
  finally show ?thesis by simp
qed


lemma sum_loop_strs:
  assumes "strs_ok a n"
    and "\<And>i. i \<in> set [0..n - 1] \<Longrightarrow> get i = rd a i"
  shows "sum_loop (\<lambda>i. do { c \<leftarrow> get i; k \<leftarrow> Sstrlen c; Some (int k + 1) }) [0..n - 1] acc
         = Some (acc + (\<Sum>c\<leftarrow>entries a n. slen c + 1))"
proof -
  have "sum_loop (\<lambda>i. do { c \<leftarrow> get i; k \<leftarrow> Sstrlen c; Some (int k + 1) }) [0..n - 1] acc
        = Some (acc + sum_list (map (\<lambda>i. slen (entries a n ! nat i) + 1) [0..n - 1]))"
  proof (rule sum_loop_all)
    fix i assume i: "i \<in> set [0..n - 1]"
    from rd_entries [OF assms(1) i] assms(2) [OF i]
    have "get i = Some (entries a n ! nat i)" and c: "is_cstr (entries a n ! nat i)" by simp_all
    moreover have "0 \<le> slen (entries a n ! nat i)" by (simp add: slen_def)
    ultimately show "do { c \<leftarrow> get i; k \<leftarrow> Sstrlen c; Some (int k + 1) }
        = Some (slen (entries a n ! nat i) + 1)"
      by (simp add: Sstrlen_cstr)
  qed
  then show ?thesis
    using sum_entries [OF assms(1), of "\<lambda>c. slen c + 1"] by simp
qed

lemma int_add_ok: "0 \<le> a \<Longrightarrow> 0 \<le> b \<Longrightarrow> a + b < 2 ^ 31 \<Longrightarrow> int_add a b = Some (a + b)"
  by (simp add: int_add_def)






lemma int_add_bind:
  "0 \<le> a \<Longrightarrow> 0 \<le> b \<Longrightarrow> a + b < 2 ^ 31 \<Longrightarrow> (int_add a b \<bind> f) = f (a + b)"
  by (simp add: int_add_def)








lemmas example_defs = example_puzzle_def example_sections_def puz_init_def zeroed_puzzle_def
  zeroed_head_def c_string_def bytes_of_def FILE_MAGIC_def VER_MAGIC_def



section \<open>Properties of the derived checksums\<close>

lemma lo_mask: "(0xFF :: u16) = mask 8"
  by (simp add: mask_eq_exp_minus_1)

lemma hi_byte: "drop_bit 8 ((x :: u16) AND 0xFF00) = drop_bit 8 x"
proof -
  have e: "(0xFF00 :: u16) = push_bit 8 (mask 8)" by (simp add: mask_eq_exp_minus_1)
  show ?thesis unfolding e
    by (rule bit_word_eqI) (auto simp: bit_simps dest: bit_imp_le_length)
qed

lemma lo_byte: "(ucast ((x :: u16) AND 0xFF) :: byte) = ucast x"
  unfolding lo_mask by (rule bit_word_eqI) (auto simp: bit_simps)

lemma take_strlen: "0 \<in> set b \<Longrightarrow> take (Suc (length (cstr b))) b = cstr b @ [0]"
proof -
  assume z: "0 \<in> set b"
  have b: "b = cstr b @ dropWhile (\<lambda>c. c \<noteq> 0) b" by (simp add: cstr_def)
  from z have ne: "dropWhile (\<lambda>c. c \<noteq> 0) b \<noteq> []" by (simp add: dropWhile_eq_Nil_conv) 
  then obtain d ds where d: "dropWhile (\<lambda>c. c \<noteq> 0) b = d # ds" by (cases "dropWhile (\<lambda>c. c \<noteq> 0) b") auto
  then have "d = 0" using hd_dropWhile [OF ne] by simp
  with b d have "b = cstr b @ 0 # ds" by simp
  then have "take (Suc (length (cstr b))) b = take (Suc (length (cstr b))) (cstr b @ 0 # ds)" by simp
  then show ?thesis by simp
qed

lemma strlen_lt: "0 \<in> set b \<Longrightarrow> length (cstr b) < length b"
proof -
  assume "0 \<in> set b"
  then have "length (take (Suc (length (cstr b))) b) = Suc (length (cstr b))"
    by (simp only: take_strlen) simp
  then show ?thesis by simp
qed

lemma take_cstr: "0 \<in> set b \<Longrightarrow> take (length (cstr b)) b = cstr b"
proof -
  assume "0 \<in> set b"
  then have "take (length (cstr b)) (take (Suc (length (cstr b))) b) = take (length (cstr b)) (cstr b @ [0])"
    by (simp only: take_strlen)
  then show ?thesis by simp
qed

lemma cksum_str_nul_eq:
  "cksum_str_nul s ck = (if is_cstr s then Some (cksum_loop (with_nul s) ck) else None)"
proof (cases s)
  case None
  then show ?thesis by (simp add: cksum_str_nul_def Sstrlen_def is_cstr_def)
next
  case (Some b)
  show ?thesis
  proof (cases "0 \<in> set b")
    case True
    have "puz_cksum_region (Some b) (int (length (cstr b)) + 1) ck = Some (cksum_loop (cstr b @ [0]) ck)"
      using strlen_lt [OF True] take_strlen [OF True]
      by (simp add: puz_cksum_region_def nat_add_distrib)
    with True Some show ?thesis
      by (simp add: cksum_str_nul_def Sstrlen_def is_cstr_def with_nul_def cbytes_def)
  next
    case False
    with Some show ?thesis by (simp add: cksum_str_nul_def Sstrlen_def is_cstr_def)
  qed
qed

lemma strs_ok_iff:
  "strs_ok a n \<longleftrightarrow> (\<forall>i\<in>set [0..n - 1]. \<exists>c. rd a i = Some c \<and> is_cstr c)"
proof
  assume "strs_ok a n"
  then show "\<forall>i\<in>set [0..n - 1]. \<exists>c. rd a i = Some c \<and> is_cstr c"
    using rd_entries by blast
next
  assume r: "\<forall>i\<in>set [0..n - 1]. \<exists>c. rd a i = Some c \<and> is_cstr c"
  show "strs_ok a n"
  proof (cases "n \<le> 0")
    case True then show ?thesis by (simp add: strs_ok_def)
  next
    case False
    then have "n - 1 \<in> set [0..n - 1]" by simp
    with r obtain c where "rd a (n - 1) = Some c" by blast
    then obtain xs where xs: "a = Some xs" and len: "n \<le> int (length xs)"
      by (auto simp: rd_def split: option.splits if_splits)
    have "is_cstr (xs ! k)" if "k < nat n" for k
    proof -
      from that have "int k \<in> set [0..n - 1]" by simp
      with r obtain c where "rd a (int k) = Some c" "is_cstr c" by blast
      with xs show ?thesis by (auto simp: rd_def split: if_splits)
    qed
    with xs len False show ?thesis by (simp add: strs_ok_def list_all_length)
  qed
qed

lemma cksum_clues_all:
  "(\<And>i. i \<in> set xs \<Longrightarrow> rd cl i = Some (g i) \<and> is_cstr (g i)) \<Longrightarrow>
   cksum_clues cl xs ck = Some (cksum_loop (concat (map (\<lambda>i. cbytes (g i)) xs)) ck)"
proof (induction xs arbitrary: ck)
  case Nil
  then show ?case by simp
next
  case (Cons i xs)
  from Cons.prems [of i] have r: "rd cl i = Some (g i)" and c: "is_cstr (g i)" by simp_all
  from c obtain b where b: "g i = Some b" "0 \<in> set b" by (auto simp: is_cstr_def split: option.splits)
  have "puz_cksum_region (g i) (int (length (cstr b))) ck = Some (cksum_loop (cstr b) ck)"
    using b strlen_lt [OF b(2)] take_cstr [OF b(2)] by (simp add: puz_cksum_region_def)
  then show ?case using r b Cons.IH Cons.prems
    by (simp add: Sstrlen_def cksum_loop_append cbytes_def)
qed

lemma cksum_clues_Some:
  "cksum_clues cl xs ck = Some r \<Longrightarrow> \<forall>i\<in>set xs. \<exists>c. rd cl i = Some c \<and> is_cstr c"
proof (induction xs arbitrary: ck)
  case Nil
  then show ?case by simp
next
  case (Cons i xs)
  from Cons.prems obtain c n ck' where c: "rd cl i = Some c" and n: "Sstrlen c = Some n"
    and rest: "cksum_clues cl xs ck' = Some r"
    by (auto split: option.splits)
  from n have "is_cstr c" by (auto simp: Sstrlen_def is_cstr_def split: option.splits if_splits)
  with c Cons.IH [OF rest] show ?case by simp
qed

lemma cksum_clues_range:
  "cksum_clues cl [0..n - 1] ck =
     (if strs_ok cl n then Some (cksum_loop (concat (map cbytes (entries cl n))) ck) else None)"
proof (cases "strs_ok cl n")
  case True
  have "cksum_clues cl [0..n - 1] ck
      = Some (cksum_loop (concat (map (\<lambda>i. cbytes (entries cl n ! nat i)) [0..n - 1])) ck)"
    by (rule cksum_clues_all) (use rd_entries [OF True] in blast)
  moreover have "concat (map (\<lambda>i. cbytes (entries cl n ! nat i)) [0..n - 1]) = concat (map cbytes (entries cl n))"
  proof -
    have len: "length (entries cl n) = nat n"
      using True by (auto simp: strs_ok_def entries_def split: option.splits)
    have "map (\<lambda>i. cbytes (entries cl n ! nat i)) [0..n - 1] = map cbytes (map (\<lambda>k. entries cl n ! k) [0..<nat n])"
      by (simp add: upto_map_int comp_def)
    also have "map (\<lambda>k. entries cl n ! k) [0..<nat n] = entries cl n"
      using len by (metis map_nth)
    finally show ?thesis by simp
  qed
  ultimately show ?thesis using True by simp
next
  case False
  have "cksum_clues cl [0..n - 1] ck = None"
  proof (rule ccontr)
    assume "cksum_clues cl [0..n - 1] ck \<noteq> None"
    then obtain r where "cksum_clues cl [0..n - 1] ck = Some r" by auto
    from cksum_clues_Some [OF this] False show False by (simp only: strs_ok_iff)
  qed
  with False show ?thesis by simp
qed

lemma puz_cksum2_eq:
  "puz_cksum2 p ck = (if cksum2_wf p then Some (cksum_loop (secondary_bytes p) ck) else None)"
  by (simp add: puz_cksum2_def cksum_str_nul_eq cksum_clues_range cksum2_wf_def secondary_bytes_def
      cksum_loop_append)

lemma puz_cksum_region_readable:
  "puz_cksum_region x n ck \<noteq> None \<longleftrightarrow> readable x n"
  by (simp add: puz_cksum_region_def readable_def split: option.splits)

lemma puz_cksum_region_SomeD: "puz_cksum_region x n ck = Some y \<Longrightarrow> readable x n"
  using puz_cksum_region_readable [of x n ck] by simp

lemma puz_cksum_region_SomeI: "readable x n \<Longrightarrow> \<exists>y. puz_cksum_region x n ck = Some y"
  using puz_cksum_region_readable [of x n ck] by auto

lemma puz_cksum_eq:
  "puz_cksum p ck \<noteq> None \<longleftrightarrow> readable (solution p) (uint (width (header p)) * uint (height (header p)))
      \<and> readable (grid p) (uint (width (header p)) * uint (height (header p))) \<and> cksum2_wf p"
proof -
  let ?A = "uint (width (header p)) * uint (height (header p))"
  show ?thesis
  proof
    assume "puz_cksum p ck \<noteq> None"
    then obtain r where "puz_cksum p ck = Some r" by auto
    then obtain y ya where 1: "puz_cksum_region (solution p) ?A ck = Some y"
       and 2: "puz_cksum_region (grid p) ?A y = Some ya" and 3: "cksum2_wf p"
      by (auto simp: puz_cksum_def Let_def bind_eq_Some_conv cksum_str_nul_eq cksum_clues_range
            cksum2_wf_def split: if_splits)
    with puz_cksum_region_SomeD show "readable (solution p) ?A \<and> readable (grid p) ?A \<and> cksum2_wf p"
      by blast
  next
    assume h: "readable (solution p) ?A \<and> readable (grid p) ?A \<and> cksum2_wf p"
    then obtain y where 1: "puz_cksum_region (solution p) ?A ck = Some y"
      using puz_cksum_region_SomeI by blast
    from h obtain ya where 2: "puz_cksum_region (grid p) ?A y = Some ya"
      using puz_cksum_region_SomeI by blast
    from h 1 2 show "puz_cksum p ck \<noteq> None"
      by (simp add: puz_cksum_def Let_def cksum_str_nul_eq cksum_clues_range cksum2_wf_def)
  qed
qed

lemma rtblstr_fill_all:
  "(\<And>i. i \<in> set xs \<Longrightarrow> rd t i = Some (g i) \<and> is_cstr (g i)) \<Longrightarrow>
   rtblstr_fill t xs acc = Some (acc @ concat (map (\<lambda>i. cbytes (g i) @ [59]) xs))"
proof (induction xs arbitrary: acc)
  case Nil
  then show ?case by simp
next
  case (Cons i xs)
  from Cons.prems [of i] have r: "rd t i = Some (g i)" and c: "is_cstr (g i)" by simp_all
  from c obtain n where "Sstrlen (g i) = Some n" by (auto simp: Sstrlen_cstr)
  with r Cons.IH Cons.prems show ?case by simp
qed

lemma rtbl_gen_ok:
  assumes "strs_ok (rtbl p) (sint (rtbl_sz p))"
  shows "\<exists>r. rtbl_gen m p = Some r"
proof -
  obtain k where k: "sum_loop (\<lambda>i. do { e \<leftarrow> rd (rtbl p) i; n \<leftarrow> Sstrlen e; Some (int n + 1) })
      [0..sint (rtbl_sz p) - 1] 1 = Some k"
    using sum_loop_strs [OF assms, of "rd (rtbl p)" 1] by simp
  obtain w where w: "rtblstr_fill (rtbl p) [0..sint (rtbl_sz p) - 1] [] = Some w"
    using rtblstr_fill_all [of "[0..sint (rtbl_sz p) - 1]" "rtbl p" "\<lambda>i. entries (rtbl p) (sint (rtbl_sz p)) ! nat i" "[]"]
      rd_entries [OF assms] by blast
  have gT: "puz_rtblstr_get True (Some p) = Some (Some (w @ [0]))"
    and gF: "puz_rtblstr_get False (Some p) = Some None"
    by (simp_all add: puz_rtblstr_get_def k w)
  have z: "(0::byte) \<in> set (w @ [0])" by simp
  have "\<exists>r. puz_cksum_region (Some (w @ [0])) (int (length (cstr (w @ [0])))) 0 = Some r"
    using strlen_lt [OF z] by (intro puz_cksum_region_SomeI) (simp add: readable_def)
  then show ?thesis
    using z by (cases m) (auto simp add: rtbl_gen_def gT gF Sstrlen_def simp del: set_append)
qed

lemma rusrstr_fill_all:
  "(\<And>j. j \<in> set js \<Longrightarrow> rd r j = Some (g j) \<and> (g j = None \<or> is_cstr (g j))) \<Longrightarrow>
   length acc + length (concat (map (\<lambda>j. cbytes (g j) @ [0]) js)) \<le> cap \<Longrightarrow>
   rusrstr_fill r cap js acc = Some (acc @ concat (map (\<lambda>j. cbytes (g j) @ [0]) js))"
proof (induction js arbitrary: acc)
  case Nil
  then show ?case by simp
next
  case (Cons j js)
  from Cons.prems(1) [of j] have r: "rd r j = Some (g j)" and c: "g j = None \<or> is_cstr (g j)"
    by simp_all
  show ?case
  proof (cases "g j")
    case None
    with r Cons.prems Cons.IH [of "acc @ [0]"] show ?thesis by (simp add: cbytes_def)
  next
    case (Some b)
    with c have z: "0 \<in> set b" by (simp add: is_cstr_def)
    with Some r Cons.prems Cons.IH [of "acc @ cstr b @ [0]"] show ?thesis
      by (simp add: cbytes_def Sstrlen_def)
  qed
qed

lemma rusr_gen_ok:
  assumes "rusr_ok p"
  shows "\<exists>r. rusr_gen p = Some r"
proof (cases "rusr p")
  case None
  then show ?thesis by (simp add: rusr_gen_def puz_rusrstr_get_def)
next
  case (Some cells)
  let ?A = "uint (width (header p)) * uint (height (header p))"
  let ?cs = "take (nat ?A) cells"
  from assms Some have len: "?A \<le> int (length cells)"
    and all: "list_all (\<lambda>c. c = None \<or> is_cstr c) ?cs"
    and sz: "unat (rusr_sz p) = length (rusr_bytes ?cs)"
    by (simp_all add: rusr_ok_def)
  have rdk: "rd (rusr p) j = Some (cells ! nat j) \<and> (cells ! nat j = None \<or> is_cstr (cells ! nat j))"
    if "j \<in> set [0..?A - 1]" for j
  proof -
    from that len have j: "0 \<le> j" "nat j < nat ?A" "nat j < length cells" by auto
    with all have "?cs ! nat j = None \<or> is_cstr (?cs ! nat j)" by (simp add: list_all_length)
    with j Some show ?thesis by (simp add: rd_def)
  qed
  have m: "map (\<lambda>j. cbytes (cells ! nat j) @ [0]) [0..?A - 1] = map (\<lambda>c. cbytes c @ [0]) ?cs"
  proof -
    have "map (\<lambda>j. cbytes (cells ! nat j) @ [0]) [0..?A - 1]
        = map (\<lambda>c. cbytes c @ [0]) (map (\<lambda>k. cells ! k) [0..<nat ?A])"
      by (simp add: upto_map_int comp_def)
    also have "map (\<lambda>k. cells ! k) [0..<nat ?A] = ?cs"
      using len by (intro nth_equalityI) simp_all
    finally show ?thesis .
  qed
  have "rusrstr_fill (rusr p) (unat (rusr_sz p)) [0..?A - 1] []
      = Some ([] @ concat (map (\<lambda>j. cbytes (cells ! nat j) @ [0]) [0..?A - 1]))"
    by (rule rusrstr_fill_all) (use rdk in blast, simp add: m sz rusr_bytes_def)
  then have "rusrstr_fill (rusr p) (unat (rusr_sz p)) [0..?A - 1] [] = Some (rusr_bytes ?cs)"
    by (simp only: m rusr_bytes_def append_Nil)
  moreover have "sint (rusr_sz p) \<le> int (length (rusr_bytes ?cs))"
  proof -
    have "sint (rusr_sz p) < 2 ^ 31" using sint_lt [of "rusr_sz p"] by simp
    then have "sint (rusr_sz p) < 2 ^ 32" by simp
    then have "sint (rusr_sz p) \<le> take_bit 32 (sint (rusr_sz p))"
      by (simp add: take_bit_int_greater_eq_self_iff)
    then have "sint (rusr_sz p) \<le> uint (rusr_sz p)" using uint_sint [of "rusr_sz p"] by simp
    also have "uint (rusr_sz p) = int (unat (rusr_sz p))" by simp
    finally show ?thesis unfolding sz .
  qed
  ultimately show ?thesis
    using Some by (simp add: rusr_gen_def puz_rusrstr_get_def Let_def puz_cksum_region_def)
qed

lemma calc_rebus_Some:
  assumes "calc_rebus m A p = Some q"
  shows "\<exists>g r. q = p\<lparr>calc_grbs_cksum := g, calc_rtbl_cksum := r\<rparr>"
proof (cases "puz_has_rebus (Some p)")
  case True
  with assms show ?thesis by (auto simp: calc_rebus_def bind_eq_Some_conv)
next
  case False
  with assms have "q = p" by (simp add: calc_rebus_def)
  then have "q = p\<lparr>calc_grbs_cksum := calc_grbs_cksum p, calc_rtbl_cksum := calc_rtbl_cksum p\<rparr>"
    by simp
  then show ?thesis by blast
qed

lemma calc_timer_Some:
  assumes "calc_timer p = Some q"
  shows "\<exists>t. q = p\<lparr>calc_ltim_cksum := t\<rparr>"
proof (cases "puz_has_timer (Some p)")
  case True
  with assms show ?thesis by (auto simp: calc_timer_def bind_eq_Some_conv)
next
  case False
  with assms have "q = p" by (simp add: calc_timer_def)
  then have "q = p\<lparr>calc_ltim_cksum := calc_ltim_cksum p\<rparr>" by simp
  then show ?thesis by blast
qed

lemma calc_extras_Some:
  assumes "calc_extras A p = Some q"
  shows "\<exists>g. q = p\<lparr>calc_gext_cksum := g\<rparr>"
proof (cases "puz_has_extras (Some p)")
  case True
  with assms show ?thesis by (auto simp: calc_extras_def bind_eq_Some_conv)
next
  case False
  with assms have "q = p" by (simp add: calc_extras_def)
  then have "q = p\<lparr>calc_gext_cksum := calc_gext_cksum p\<rparr>" by simp
  then show ?thesis by blast
qed

lemma calc_rusr_Some:
  assumes "calc_rusr p = Some q"
  shows "\<exists>r. q = p\<lparr>calc_rusr_cksum := r\<rparr>"
proof (cases "puz_has_rusr (Some p)")
  case True
  with assms show ?thesis by (auto simp: calc_rusr_def bind_eq_Some_conv)
next
  case False
  with assms have "q = p" by (simp add: calc_rusr_def)
  then have "q = p\<lparr>calc_rusr_cksum := calc_rusr_cksum p\<rparr>" by simp
  then show ?thesis by blast
qed

lemma calc_rebus_ok:
  "grbs p = None \<or> (readable (grbs p) A \<and> strs_ok (rtbl p) (sint (rtbl_sz p))) \<Longrightarrow>
   \<exists>q. calc_rebus m A p = Some q"
  using rtbl_gen_ok [of p m] puz_cksum_region_SomeI [of "grbs p" A 0]
  by (auto simp: calc_rebus_def puz_has_rebus_def)

lemma calc_timer_ok: "ltim p = None \<or> is_cstr (ltim p) \<Longrightarrow> \<exists>q. calc_timer p = Some q"
proof (cases "ltim p")
  case None
  then show ?thesis by (simp add: calc_timer_def puz_has_timer_def)
next
  case (Some b)
  assume "ltim p = None \<or> is_cstr (ltim p)"
  with Some have z: "0 \<in> set b" by (simp add: is_cstr_def)
  with Some strlen_lt [OF z] show ?thesis
    by (simp add: calc_timer_def puz_has_timer_def Sstrlen_def puz_cksum_region_def)
qed

lemma calc_extras_ok: "gext p = None \<or> readable (gext p) A \<Longrightarrow> \<exists>q. calc_extras A p = Some q"
  using puz_cksum_region_SomeI [of "gext p" A 0]
  by (auto simp: calc_extras_def puz_has_extras_def)

lemma calc_rusr_ok: "rusr_ok p \<Longrightarrow> \<exists>q. calc_rusr p = Some q"
  using rusr_gen_ok [of p] by (auto simp: calc_rusr_def puz_has_rusr_def)

lemma puz_cksums_calc_fields:
  assumes "puz_cksums_calc m (Some p) = Some (r, p')"
  shows "\<exists>puz0 cib_sum grid_sum soln.
     puz_cksum2 p 0 = Some puz0
   \<and> puz_cksum_region (Some [width (header p), height (header p),
           ucast (clue_count (header p) AND 0xFF), ucast (drop_bit 8 (clue_count (header p) AND 0xFF00)),
           ucast (x_unk_30 (header p) AND 0xFF), ucast (drop_bit 8 (x_unk_30 (header p) AND 0xFF00)),
           ucast (scrambled_tag (header p) AND 0xFF), ucast (drop_bit 8 (scrambled_tag (header p) AND 0xFF00))]) 8 0 = Some cib_sum
   \<and> puz_cksum_region (grid p) (uint (width (header p)) * uint (height (header p))) 0 = Some grid_sum
   \<and> puz_cksum_region (solution p) (uint (width (header p)) * uint (height (header p))) 0 = Some soln
   \<and> calc_magic10 p' = magic_gen_10 [cib_sum, soln, grid_sum, puz0]
   \<and> calc_magic14 p' = magic_gen_14 [cib_sum, soln, grid_sum, puz0]
   \<and> r = 0"
proof -
  let ?cib = "[width (header p), height (header p),
           ucast (clue_count (header p) AND 0xFF), ucast (drop_bit 8 (clue_count (header p) AND 0xFF00)),
           ucast (x_unk_30 (header p) AND 0xFF), ucast (drop_bit 8 (x_unk_30 (header p) AND 0xFF00)),
           ucast (scrambled_tag (header p) AND 0xFF), ucast (drop_bit 8 (scrambled_tag (header p) AND 0xFF00))]"
  let ?A = "uint (width (header p)) * uint (height (header p))"
  define q where "q = p\<lparr>cib := ?cib\<rparr>"
  have q: "title q = title p" "solution q = solution p" "grid q = grid p" "cib q = ?cib"
    "puz_cksum2 q 0 = puz_cksum2 p 0"
    by (simp_all add: q_def puz_cksum2_def)
  from assms obtain puz0 cib_sum puzcib grid_sum soln q1 q2 q3 where
    1: "puz_cksum2 q 0 = Some puz0" and 2: "puz_cksum_cib q = Some cib_sum"
    and 3: "puz_cksum q cib_sum = Some puzcib"
    and 4: "puz_cksum_region (grid q) ?A 0 = Some grid_sum"
    and 5: "puz_cksum_region (solution q) ?A 0 = Some soln"
    and 6: "calc_rebus m ?A (q\<lparr>calc_cksum_puzcib := puzcib, calc_cksums := [cib_sum, soln, grid_sum, puz0],
              calc_magic10 := magic_gen_10 [cib_sum, soln, grid_sum, puz0],
              calc_magic14 := magic_gen_14 [cib_sum, soln, grid_sum, puz0]\<rparr>) = Some q1"
    and 7: "calc_timer q1 = Some q2" and 8: "calc_extras ?A q2 = Some q3"
    and 9: "calc_rusr q3 = Some p'" and 10: "r = 0"
    unfolding puz_cksums_calc_def option.case Let_def q_def [symmetric]
    by (auto simp: bind_eq_Some_conv)
  from calc_rebus_Some [OF 6] calc_timer_Some [OF 7] calc_extras_Some [OF 8] calc_rusr_Some [OF 9]
  have "calc_magic10 p' = magic_gen_10 [cib_sum, soln, grid_sum, puz0]"
    and "calc_magic14 p' = magic_gen_14 [cib_sum, soln, grid_sum, puz0]"
    by auto
  with 1 2 4 5 10 q show ?thesis
    unfolding puz_cksum_cib_def by (simp only:) blast
qed

lemma puz_cksums_calc_returns:
  assumes "cksum_wf p"
  shows "\<exists>p'. puz_cksums_calc m (Some p) = Some (0, p')"
proof -
  let ?A = "uint (width (header p)) * uint (height (header p))"
  from assms have c2: "cksum2_wf p" and rs: "readable (solution p) ?A" and rg: "readable (grid p) ?A"
    and gr: "grbs p = None \<or> (readable (grbs p) ?A \<and> strs_ok (rtbl p) (sint (rtbl_sz p)))"
    and lt: "ltim p = None \<or> is_cstr (ltim p)"
    and ge: "gext p = None \<or> readable (gext p) ?A"
    and ru: "rusr_ok p"
    by (simp_all add: cksum_wf_def)
  have c2': "cksum2_wf (p\<lparr>cib := x\<rparr>)" for x using c2 by (simp add: cksum2_wf_def)
  define q where "q = p\<lparr>cib := [width (header p), height (header p),
           ucast (clue_count (header p) AND 0xFF), ucast (drop_bit 8 (clue_count (header p) AND 0xFF00)),
           ucast (x_unk_30 (header p) AND 0xFF), ucast (drop_bit 8 (x_unk_30 (header p) AND 0xFF00)),
           ucast (scrambled_tag (header p) AND 0xFF), ucast (drop_bit 8 (scrambled_tag (header p) AND 0xFF00))]\<rparr>"
  have qf: "solution q = solution p" "grid q = grid p" "header q = header p" "length (cib q) = 8"
    and q2: "cksum2_wf q"
    using c2 by (simp_all add: q_def cksum2_wf_def)
  obtain puz0 where 1: "puz_cksum2 q 0 = Some puz0" by (simp add: puz_cksum2_eq q2)
  obtain cs where 2: "puz_cksum_cib q = Some cs" by (simp add: puz_cksum_cib_def puz_cksum_region_def qf)
  obtain pc where 3: "puz_cksum q cs = Some pc"
    using puz_cksum_eq [of q cs] q2 rs rg by (auto simp: qf)
  obtain gs where 4: "puz_cksum_region (grid p) ?A 0 = Some gs"
    using puz_cksum_region_SomeI [OF rg] by blast
  obtain ss where 5: "puz_cksum_region (solution p) ?A 0 = Some ss"
    using puz_cksum_region_SomeI [OF rs] by blast
  define q0 where "q0 = q\<lparr>calc_cksum_puzcib := pc, calc_cksums := [cs, ss, gs, puz0],
              calc_magic10 := magic_gen_10 [cs, ss, gs, puz0],
              calc_magic14 := magic_gen_14 [cs, ss, gs, puz0]\<rparr>"
  have "grbs q0 = None \<or> (readable (grbs q0) ?A \<and> strs_ok (rtbl q0) (sint (rtbl_sz q0)))"
    using gr by (simp add: q0_def q_def)
  from calc_rebus_ok [OF this] obtain q1 where 6: "calc_rebus m ?A q0 = Some q1" by blast
  from calc_rebus_Some [OF 6] obtain g r where q1: "q1 = q0\<lparr>calc_grbs_cksum := g, calc_rtbl_cksum := r\<rparr>"
    by blast
  have "ltim q1 = None \<or> is_cstr (ltim q1)" using lt by (simp add: q1 q0_def q_def)
  from calc_timer_ok [OF this] obtain q2 where 7: "calc_timer q1 = Some q2" by blast
  from calc_timer_Some [OF 7] obtain t where q2: "q2 = q1\<lparr>calc_ltim_cksum := t\<rparr>" by blast
  have "gext q2 = None \<or> readable (gext q2) ?A" using ge by (simp add: q2 q1 q0_def q_def)
  from calc_extras_ok [OF this] obtain q3 where 8: "calc_extras ?A q2 = Some q3" by blast
  from calc_extras_Some [OF 8] obtain g' where q3: "q3 = q2\<lparr>calc_gext_cksum := g'\<rparr>" by blast
  have f: "rusr q3 = rusr p" "rusr_sz q3 = rusr_sz p" "header q3 = header p"
    by (simp_all add: q3 q2 q1 q0_def q_def)
  have "rusr_ok q3" using ru unfolding rusr_ok_def f .
  from calc_rusr_ok [OF this] obtain q4 where 9: "calc_rusr q3 = Some q4" by blast
  show ?thesis
    unfolding puz_cksums_calc_def option.case Let_def q_def [symmetric]
    by (simp add: 1 2 3 4 5 qf q0_def [symmetric] 6 7 8 9)
qed

text \<open>
  C1. \<open>puz_cksums_calc\<close> returns on every puzzle whose buffers it can read, and whenever
  it returns, \<open>calc_magic10[i] = (sums[i] & 0xFF) XOR "ICHE"[i]\<close> and
  \<open>calc_magic14[i] = (sums[i] >> 8) XOR "ATED"[i]\<close> for \<open>i\<close> in 0..3, where
  \<open>sums = [cib, sol_sum, grid_sum, cksum2]\<close>: \<open>cib\<close> is the checksum from 0 of the 8-byte
  block \<open>[W, H, clue_count LE, x_unk_30 LE, scrambled_tag LE]\<close>, \<open>sol_sum\<close> and \<open>grid_sum\<close>
  are the checksums from 0 of the \<open>W\<cdot>H\<close> solution and grid bytes, and \<open>cksum2\<close> is the
  checksum from 0 of title, author and copyright with their NULs when non-empty, then
  each clue without its NUL, then the notes with their NUL when non-empty.
\<close>

theorem puz_cksums_calc_magic:
  "(cksum_wf p \<longrightarrow> (\<exists>p'. puz_cksums_calc m (Some p) = Some (0, p')))
   \<and> (\<forall>r p'. puz_cksums_calc m (Some p) = Some (r, p') \<longrightarrow>
        (\<exists>cib_sum sol_sum grid_sum cksum2.
            puz_cksum_region (Some (CIB8 p)) 8 0 = Some cib_sum
          \<and> puz_cksum_region (solution p) (uint (width (header p)) * uint (height (header p))) 0
              = Some sol_sum
          \<and> puz_cksum_region (grid p) (uint (width (header p)) * uint (height (header p))) 0
              = Some grid_sum
          \<and> puz_cksum2 p 0 = Some cksum2
          \<and> cksum2 = cksum_loop (secondary_bytes p) 0
          \<and> calc_magic10 p' =
               map (\<lambda>i. ucast ([cib_sum, sol_sum, grid_sum, cksum2] ! i AND 0xFF)
                           XOR bytes_of ''ICHE'' ! i) [0..<4]
          \<and> calc_magic14 p' =
               map (\<lambda>i. ucast (drop_bit 8 ([cib_sum, sol_sum, grid_sum, cksum2] ! i))
                           XOR bytes_of ''ATED'' ! i) [0..<4]))"
proof (intro conjI impI allI)
  assume "cksum_wf p"
  then show "\<exists>p'. puz_cksums_calc m (Some p) = Some (0, p')"
    by (rule puz_cksums_calc_returns)
next
  fix r p'
  assume "puz_cksums_calc m (Some p) = Some (r, p')"
  from puz_cksums_calc_fields [OF this] obtain puz0 cib_sum grid_sum soln where
    1: "puz_cksum2 p 0 = Some puz0"
    and 2: "puz_cksum_region (Some [width (header p), height (header p),
           ucast (clue_count (header p) AND 0xFF), ucast (drop_bit 8 (clue_count (header p) AND 0xFF00)),
           ucast (x_unk_30 (header p) AND 0xFF), ucast (drop_bit 8 (x_unk_30 (header p) AND 0xFF00)),
           ucast (scrambled_tag (header p) AND 0xFF), ucast (drop_bit 8 (scrambled_tag (header p) AND 0xFF00))]) 8 0 = Some cib_sum"
    and 3: "puz_cksum_region (grid p) (uint (width (header p)) * uint (height (header p))) 0 = Some grid_sum"
    and 4: "puz_cksum_region (solution p) (uint (width (header p)) * uint (height (header p))) 0 = Some soln"
    and 5: "calc_magic10 p' = magic_gen_10 [cib_sum, soln, grid_sum, puz0]"
    and 6: "calc_magic14 p' = magic_gen_14 [cib_sum, soln, grid_sum, puz0]"
    by blast
  have c: "CIB8 p = [width (header p), height (header p),
           ucast (clue_count (header p) AND 0xFF), ucast (drop_bit 8 (clue_count (header p) AND 0xFF00)),
           ucast (x_unk_30 (header p) AND 0xFF), ucast (drop_bit 8 (x_unk_30 (header p) AND 0xFF00)),
           ucast (scrambled_tag (header p) AND 0xFF), ucast (drop_bit 8 (scrambled_tag (header p) AND 0xFF00))]"
    by (simp only: CIB8_def le16_def lo_byte hi_byte append.simps)
  have s: "puz0 = cksum_loop (secondary_bytes p) 0"
    using 1 by (simp add: puz_cksum2_eq split: if_splits)
  have m10: "magic_gen_10 sums = map (\<lambda>i. ucast (sums ! i AND 0xFF) XOR bytes_of ''ICHE'' ! i) [0..<4]" for sums
    by (simp add: magic_gen_10_def MAGIC_10_MASK_def bytes_of_def)
  have m14: "magic_gen_14 sums = map (\<lambda>i. ucast (drop_bit 8 (sums ! i)) XOR bytes_of ''ATED'' ! i) [0..<4]" for sums
    by (simp only: magic_gen_14_def hi_byte) (simp add: MAGIC_14_MASK_def bytes_of_def)
  show "\<exists>cib_sum sol_sum grid_sum cksum2.
            puz_cksum_region (Some (CIB8 p)) 8 0 = Some cib_sum
          \<and> puz_cksum_region (solution p) (uint (width (header p)) * uint (height (header p))) 0
              = Some sol_sum
          \<and> puz_cksum_region (grid p) (uint (width (header p)) * uint (height (header p))) 0
              = Some grid_sum
          \<and> puz_cksum2 p 0 = Some cksum2
          \<and> cksum2 = cksum_loop (secondary_bytes p) 0
          \<and> calc_magic10 p' =
               map (\<lambda>i. ucast ([cib_sum, sol_sum, grid_sum, cksum2] ! i AND 0xFF)
                           XOR bytes_of ''ICHE'' ! i) [0..<4]
          \<and> calc_magic14 p' =
               map (\<lambda>i. ucast (drop_bit 8 ([cib_sum, sol_sum, grid_sum, cksum2] ! i))
                           XOR bytes_of ''ATED'' ! i) [0..<4]"
    using 1 2 3 4 5 6 s unfolding c [symmetric] m10 m14 by blast
qed

lemma cksum_wf_example_sections: "cksum_wf example_sections"
  by (simp add: example_defs cksum_wf_def cksum2_wf_def is_cstr_def strs_ok_def readable_def
       rusr_ok_def rusr_bytes_def cbytes_def cstr_def)

theorem puz_cksums_calc_magic_witness:
  "cksum_wf example_sections
   \<and> (\<exists>p'. puz_cksums_calc True (Some example_sections) = Some (0, p')
          \<and> calc_magic10 p' = [73, 49, 28, 47] \<and> calc_magic14 p' = [125, 244, 165, 51])"
proof -
  note T = puz_cksums_calc_magic [of example_sections True]
  from T cksum_wf_example_sections obtain p'
    where p': "puz_cksums_calc True (Some example_sections) = Some (0, p')" by blast
  with T obtain cib_sum sol_sum grid_sum cksum2 where
    1: "puz_cksum_region (Some (CIB8 example_sections)) 8 0 = Some cib_sum"
    and 2: "puz_cksum_region (solution example_sections)
              (uint (width (header example_sections)) * uint (height (header example_sections))) 0
            = Some sol_sum"
    and 3: "puz_cksum_region (grid example_sections)
              (uint (width (header example_sections)) * uint (height (header example_sections))) 0
            = Some grid_sum"
    and 4: "cksum2 = cksum_loop (secondary_bytes example_sections) 0"
    and 5: "calc_magic10 p' =
               map (\<lambda>i. ucast ([cib_sum, sol_sum, grid_sum, cksum2] ! i AND 0xFF)
                           XOR bytes_of ''ICHE'' ! i) [0..<4]"
    and 6: "calc_magic14 p' =
               map (\<lambda>i. ucast (drop_bit 8 ([cib_sum, sol_sum, grid_sum, cksum2] ! i))
                           XOR bytes_of ''ATED'' ! i) [0..<4]"
    by blast
  from 1 have c: "cib_sum = 15360"
    by (simp add: CIB8_def le16_def example_defs puz_cksum_region_def cksum_step_def)
  from 2 have s: "sol_sum = 41074"
    by (simp add: example_defs puz_cksum_region_def cksum_step_def)
  from 3 have g: "grid_sum = 57428"
    by (simp add: example_defs puz_cksum_region_def cksum_step_def)
  from 4 have k: "cksum2 = 30570"
    by (simp add: secondary_bytes_def with_nul_def cbytes_def cstr_def entries_def example_defs
        cksum_step_def)
  have u: "[0..<4] = [0, 1, 2, 3]" by (simp add: upt_rec)
  from 5 6 have "calc_magic10 p' = [73, 49, 28, 47]" and "calc_magic14 p' = [125, 244, 165, 51]"
    unfolding c s g k u by (simp_all add: bytes_of_def)
  with p' cksum_wf_example_sections show ?thesis by blast
qed

section \<open>Properties of the scrambler\<close>

lemma rd_Some [simp]: "rd (Some xs) (int i) = (if i < length xs then Some (xs ! i) else None)"
  by (simp add: rd_def)

lemma wr_Some [simp]:
  "wr (Some xs) (int i) v = (if i < length xs then Some (Some (xs[i := v])) else None)"
  by (simp add: wr_def)

lemma cstr_append_nul [simp]: "0 \<notin> set t \<Longrightarrow> cstr (t @ 0 # r) = t"
  by (induction t) (auto simp: cstr_def)

lemma Sstrlen_append_nul [simp]: "0 \<notin> set t \<Longrightarrow> Sstrlen (Some (t @ 0 # r)) = Some (length t)"
  by (simp add: Sstrlen_def)

lemma scr_index_lt: "i < L \<Longrightarrow> scr_index L i < L"
  unfolding scr_index_def by (auto elim!: evenE oddE)

lemma scr_source_lt: "p < L \<Longrightarrow> scr_source L p < L"
  unfolding scr_source_def by (cases "even L") (auto elim!: evenE oddE)

lemma scr_index_source: "p < L \<Longrightarrow> scr_index L (scr_source L p) = p"
  unfolding scr_source_def scr_index_def by auto

lemma scr_source_index: "i < L \<Longrightarrow> scr_source L (scr_index L i) = i"
  unfolding scr_source_def scr_index_def by (auto elim!: evenE oddE)

lemma scr_index_inj: "i < L \<Longrightarrow> j < L \<Longrightarrow> scr_index L i = scr_index L j \<Longrightarrow> i = j"
  by (metis scr_source_index)

lemma scr_index_int:
  "(if 0 = int i mod 2 then int (L div 2) + int i div 2 else int i div 2) = int (scr_index L i)"
proof (cases "even i")
  case True
  then have "int i mod 2 = 0" by presburger
  with True show ?thesis by (simp add: scr_index_def zdiv_int)
next
  case False
  then have "int i mod 2 = 1" by presburger
  with False show ?thesis by (simp add: scr_index_def zdiv_int)
qed

lemma unscramble_loop_fold:
  "\<forall>i\<in>set is. i < length inp \<and> scr_index L i < length out \<Longrightarrow>
   unscramble_loop (Some inp) (int (L div 2)) (map int is) (Some out)
     = Some (Some (fold (\<lambda>i b. b[scr_index L i := inp ! i]) is out))"
proof (induction "is" arbitrary: out)
  case Nil
  then show ?case by simp
next
  case (Cons i "is")
  from Cons.prems have b: "i < length inp" "scr_index L i < length out" by simp_all
  have "\<forall>j\<in>set is. j < length inp \<and> scr_index L j < length (out[scr_index L i := inp ! i])"
    using Cons.prems by simp
  from Cons.IH [OF this] b show ?case
    by (simp only: list.map unscramble_loop.simps scr_index_int Let_def) simp
qed

lemma fold_upd_nth:
  assumes "m \<le> L" "L \<le> length out"
  shows "length (fold (\<lambda>i b. b[scr_index L i := inp ! i]) [0..<m] out) = length out
     \<and> (\<forall>i<m. fold (\<lambda>i b. b[scr_index L i := inp ! i]) [0..<m] out ! scr_index L i = inp ! i)"
  using assms(1)
proof (induction m)
  case 0
  then show ?case by simp
next
  case (Suc m)
  let ?f = "fold (\<lambda>i b. b[scr_index L i := inp ! i]) [0..<m] out"
  let ?g = "fold (\<lambda>i b. b[scr_index L i := inp ! i]) [0..<Suc m] out"
  from Suc have IH: "length ?f = length out" "\<And>i. i < m \<Longrightarrow> ?f ! scr_index L i = inp ! i"
    and m: "m < L"
    by simp_all
  have g: "?g = ?f[scr_index L m := inp ! m]" by simp
  have lt: "scr_index L m < length ?f" using scr_index_lt [OF m] IH(1) assms(2) by simp
  have "?g ! scr_index L i = inp ! i" if i: "i < Suc m" for i
  proof (cases "i = m")
    case True
    with lt show ?thesis unfolding g by simp
  next
    case False
    with i have im: "i < m" by simp
    then have "scr_index L i \<noteq> scr_index L m"
      using scr_index_inj [of i L m] m by auto
    with IH(2) [OF im] show ?thesis unfolding g by simp
  qed
  moreover have "length ?g = length out" unfolding g using IH(1) by simp
  ultimately show ?case by blast
qed

lemma unscramble_string_eq:
  assumes "0 \<notin> set t" "length out = Suc (length t)"
  shows "unscramble_string (Some (t @ [0])) (Some out) = Some (0, Some (unscramble_step t @ [0]))"
proof -
  let ?L = "length t"
  define inp where "inp = t @ [0::byte]"
  let ?f = "fold (\<lambda>i b. b[scr_index ?L i := inp ! i]) [0..<?L] out"
  have inp: "length inp = Suc ?L" "\<And>i. i < ?L \<Longrightarrow> inp ! i = t ! i"
    by (simp_all add: inp_def nth_append)
  have loop: "unscramble_loop (Some inp) (int (?L div 2)) (map int [0..<?L]) (Some out)
      = Some (Some ?f)"
    by (rule unscramble_loop_fold) (use assms inp scr_index_lt in \<open>auto simp: less_Suc_eq\<close>)
  from fold_upd_nth [of ?L ?L out inp] assms
  have len: "length ?f = Suc ?L" and nth: "\<And>i. i < ?L \<Longrightarrow> ?f ! scr_index ?L i = t ! i"
    by (auto simp: inp)
  have r: "?f[?L := 0] = unscramble_step t @ [0]"
  proof (rule nth_equalityI)
    show "length (?f[?L := 0]) = length (unscramble_step t @ [0])"
      by (simp add: len unscramble_step_def)
  next
    fix p assume "p < length (?f[?L := 0])"
    then have p: "p < Suc ?L" by (simp add: len)
    show "?f[?L := 0] ! p = (unscramble_step t @ [0]) ! p"
    proof (cases "p < ?L")
      case True
      then have "?f ! p = t ! scr_source ?L p"
        using nth [of "scr_source ?L p"] scr_source_lt [OF True] scr_index_source [OF True] by simp
      with True show ?thesis by (simp add: unscramble_step_def nth_append)
    next
      case False
      with p have "p = ?L" by simp
      then show ?thesis by (simp add: len unscramble_step_def nth_append)
    qed
  qed
  have idx: "int (length t) div 2 = int (length t div 2)" by (simp add: zdiv_int)
  have sl: "Sstrlen (Some inp) = Some ?L"
    unfolding inp_def using assms(1) by simp
  show ?thesis
    unfolding inp_def [symmetric]
    using loop len by (simp add: unscramble_string_def sl upto_map_nat idx r)
qed


lemma cstr_no_nul [simp]: "0 \<notin> set t \<Longrightarrow> cstr t = t"
  by (induction t) (auto simp: cstr_def)

lemma strncpy_prefix:
  assumes "0 \<notin> set c" "length c = n" "doff + n \<le> length d" "soff + n \<le> length s"
    "take n (drop soff s) = c"
  shows "strncpy (Some d) (int doff) (Some s) (int soff) (int n)
         = Some (Some (take doff d @ c @ drop (doff + n) d))"
proof -
  have "cstr (take n (drop soff s)) = c" using assms by simp
  then show ?thesis
    using assms by (simp add: strncpy_def Let_def nat_add_distrib del: take_drop)
qed

lemma sint_nonneg_uint: "0 \<le> sint (k :: 32 word) \<Longrightarrow> uint k = sint k"
proof -
  assume nn: "0 \<le> sint k"
  have "sint k < 2 ^ 31" using sint_lt [of k] by simp
  then have "sint k < 2 ^ 32" by simp
  with nn have "take_bit 32 (sint k) = sint k" by (simp add: take_bit_int_eq_self)
  with uint_sint [of k] show ?thesis by simp
qed

lemma unshift_string_eq:
  assumes "0 \<notin> set t" "length out = Suc (length t)" "0 \<le> sint shift"
  shows "unshift_string (Some (t @ [0])) shift (Some out)
         = (if int (length t) < sint shift then Some (-1, Some out)
            else Some (0, Some (unshift_step (unat shift) t @ [0])))"
proof (cases "int (length t) < sint shift")
  case True
  have "Sstrlen (Some (t @ [0])) = Some (length t)" using assms(1) by simp
  with True show ?thesis by (simp add: unshift_string_def)
next
  case False
  let ?L = "length t"
  let ?k = "unat shift"
  have sl: "Sstrlen (Some (t @ [0])) = Some (length t)" using assms(1) by simp
  have u: "uint shift = int ?k" by simp
  have ks: "int ?k = sint shift" using sint_nonneg_uint [OF assms(3)] by simp
  with False have k: "?k \<le> ?L" by linarith
  have n: "int ?L - int ?k = int (?L - ?k)" using k by simp
  have z1: "0 \<notin> set (take (?L - ?k) t)" using assms(1) by (auto dest: in_set_takeD)
  have z2: "0 \<notin> set (drop (?L - ?k) t)" using assms(1) by (auto dest: in_set_dropD)
  have 1: "strncpy (Some out) (int ?k) (Some (t @ [0])) (int 0) (int (?L - ?k))
      = Some (Some (take ?k out @ take (?L - ?k) t @ drop (?k + (?L - ?k)) out))"
  proof (rule strncpy_prefix [OF z1])
    show "length (take (?L - ?k) t) = ?L - ?k" by simp
    show "?k + (?L - ?k) \<le> length out" using k assms(2) by simp
    show "0 + (?L - ?k) \<le> length (t @ [0])" by simp
    show "take (?L - ?k) (drop 0 (t @ [0])) = take (?L - ?k) t" by simp
  qed
  obtain z where z: "drop ?L out = [z]"
  proof -
    have "length (drop ?L out) = 1" using assms(2) by simp
    then show ?thesis using that by (cases "drop ?L out") auto
  qed
  let ?o1 = "take ?k out @ take (?L - ?k) t @ [z]"
  have lk: "length (take ?k out) = ?k" using k assms(2) by simp
  have 2: "strncpy (Some ?o1) (int 0) (Some (t @ [0])) (int (?L - ?k)) (int ?k)
      = Some (Some (take 0 ?o1 @ drop (?L - ?k) t @ drop (0 + ?k) ?o1))"
  proof (rule strncpy_prefix [OF z2])
    show "length (drop (?L - ?k) t) = ?k" using k by simp
    show "0 + ?k \<le> length ?o1" using k assms(2) by simp
    show "?L - ?k + ?k \<le> length (t @ [0])" using k by simp
    show "take ?k (drop (?L - ?k) (t @ [0])) = drop (?L - ?k) t" using k by simp
  qed
  have d: "drop (0 + ?k) ?o1 = take (?L - ?k) t @ [z]" using lk by simp
  have fin: "(drop (?L - ?k) t @ take (?L - ?k) t @ [z])[?L := 0] = unshift_step ?k t @ [0]"
    using k by (simp add: unshift_step_def list_update_append)
  have len: "length (drop (?L - ?k) t @ take (?L - ?k) t @ [z]) = Suc ?L" using k by simp
  have kk: "?k + (?L - ?k) = ?L" using k by simp
  have s1: "strncpy (Some out) (uint shift) (Some (t @ [0])) 0 (int ?L - uint shift) = Some (Some ?o1)"
    using 1 unfolding u n kk z by simp
  have s2: "strncpy (Some ?o1) 0 (Some (t @ [0])) (int ?L - uint shift) (uint shift)
        = Some (Some (drop (?L - ?k) t @ take (?L - ?k) t @ [z]))"
    using 2 unfolding u n d by simp
  have w: "wr (Some (drop (?L - ?k) t @ take (?L - ?k) t @ [z])) (int ?L) 0
       = Some (Some (unshift_step ?k t @ [0]))"
    unfolding wr_Some len fin by simp
  have neg: "\<not> sint shift < 0" using assms(3) by simp
  show ?thesis
    unfolding unshift_string_def
    by (simp only: sl s1 s2 w False neg if_False bind.bind_lunit option.simps simp_thms)
qed

lemma spec_scramble_eq: "spec_scramble t = unscramble_step t"
proof -
  let ?L = "length t"
  have e: "spec_scramble t = fold (\<lambda>i b. b[scr_index ?L i := t ! i]) [0..<?L] t"
    by (simp add: spec_scramble_def scr_index_def)
  from fold_upd_nth [of ?L ?L t t]
  have len: "length (spec_scramble t) = ?L"
    and nth: "\<And>i. i < ?L \<Longrightarrow> spec_scramble t ! scr_index ?L i = t ! i"
    unfolding e by auto
  show ?thesis
  proof (rule nth_equalityI)
    show "length (spec_scramble t) = length (unscramble_step t)"
      by (simp add: len unscramble_step_def)
  next
    fix p assume "p < length (spec_scramble t)"
    then have p: "p < ?L" by (simp add: len)
    from nth [of "scr_source ?L p"] scr_source_lt [OF p] scr_index_source [OF p]
    show "spec_scramble t ! p = unscramble_step t ! p"
      using p by (simp add: unscramble_step_def)
  qed
qed

lemma unscramble_scrambled: "unscramble_step (scrambled_layout t) = t"
proof (rule nth_equalityI)
  show "length (unscramble_step (scrambled_layout t)) = length t"
    by (simp add: unscramble_step_def scrambled_layout_def)
next
  fix p assume "p < length (unscramble_step (scrambled_layout t))"
  then have p: "p < length t" by (simp add: unscramble_step_def scrambled_layout_def)
  let ?L = "length t"
  have "scrambled_layout t ! scr_source ?L p = t ! scr_index ?L (scr_source ?L p)"
    using scr_source_lt [OF p] by (simp add: scrambled_layout_def scr_index_def)
  then show "unscramble_step (scrambled_layout t) ! p = t ! p"
    using p scr_index_source [OF p] by (simp add: unscramble_step_def scrambled_layout_def)
qed

lemma set_scrambled_layout: "set (scrambled_layout t) \<subseteq> set t"
proof
  fix x assume "x \<in> set (scrambled_layout t)"
  then obtain i where i: "i < length t" and x: "x = t ! scr_index (length t) i"
    by (auto simp: scrambled_layout_def scr_index_def)
  with scr_index_lt [OF i] show "x \<in> set t" by simp
qed

lemma unshift_shift: "k \<le> length t \<Longrightarrow> unshift_step k (spec_shift k t) = t"
  by (simp add: unshift_step_def spec_shift_def)

text \<open>
  C4, as stated, fails: the specification's scramble step is the very mapping that
  \<open>unscramble_string\<close> computes, so the two composed reverse \<open>ABCD\<close> instead of restoring it.
\<close>

theorem spec_scramble_unscramble_counterexample:
  "list_all (\<lambda>c. 65 \<le> c \<and> c \<le> 90) (bytes_of ''ABCD'')
   \<and> 2 \<le> length (bytes_of ''ABCD'')
   \<and> unscramble_string (Some (spec_scramble (bytes_of ''ABCD'') @ [0])) (Some (replicate 5 0))
       = Some (0, Some (bytes_of ''DCBA'' @ [0]))
   \<and> bytes_of ''DCBA'' \<noteq> bytes_of ''ABCD''"
  by code_simp

text \<open>
  C4, amended. For every string \<open>t\<close> without NUL (so every string over \<open>A..Z\<close>, of any
  length \<open>L\<close>) and every output buffer of \<open>L + 1\<close> bytes: \<open>unscramble_string\<close> applied to the
  scrambled form the source documents (\<open>t'[i] = t[L/2 + i/2]\<close> for even \<open>i\<close>,
  \<open>t'[i] = t[i/2]\<close> for odd \<open>i\<close>) yields \<open>t\<close>; the mapping the specification calls the
  scramble step is the one \<open>unscramble_string\<close> itself applies; and for every
  \<open>0 \<le> k \<le> L\<close>, the specification's shift by \<open>k\<close> followed by \<open>unshift_string\<close> with shift
  \<open>k\<close> yields \<open>t\<close>.
\<close>

theorem unscramble_unshift_inverse:
  assumes "0 \<notin> set t" and "length out = Suc (length t)"
  shows "unscramble_string (Some (scrambled_layout t @ [0])) (Some out) = Some (0, Some (t @ [0]))
       \<and> unscramble_string (Some (t @ [0])) (Some out) = Some (0, Some (spec_scramble t @ [0]))
       \<and> (0 \<le> sint shift \<and> sint shift \<le> int (length t) \<longrightarrow>
            unshift_string (Some (spec_shift (unat shift) t @ [0])) shift (Some out)
              = Some (0, Some (t @ [0])))"
proof (intro conjI impI)
  have z: "0 \<notin> set (scrambled_layout t)" using assms(1) set_scrambled_layout by blast
  have l: "length out = Suc (length (scrambled_layout t))"
    using assms(2) by (simp add: scrambled_layout_def)
  show "unscramble_string (Some (scrambled_layout t @ [0])) (Some out) = Some (0, Some (t @ [0]))"
    using unscramble_string_eq [OF z l] by (simp add: unscramble_scrambled)
  show "unscramble_string (Some (t @ [0])) (Some out) = Some (0, Some (spec_scramble t @ [0]))"
    using unscramble_string_eq [OF assms] by (simp add: spec_scramble_eq)
next
  assume s: "0 \<le> sint shift \<and> sint shift \<le> int (length t)"
  let ?k = "unat shift"
  have ks: "int ?k = sint shift" using sint_nonneg_uint [of shift] s by simp
  with s have k: "?k \<le> length t" by linarith
  have z: "0 \<notin> set (spec_shift ?k t)"
    using assms(1) by (auto simp: spec_shift_def dest: in_set_dropD in_set_takeD)
  have l: "length out = Suc (length (spec_shift ?k t))"
    using assms(2) k by (simp add: spec_shift_def)
  have ll: "length (spec_shift ?k t) = length t" using k by (simp add: spec_shift_def)
  show "unshift_string (Some (spec_shift ?k t @ [0])) shift (Some out) = Some (0, Some (t @ [0]))"
    using unshift_string_eq [OF z l] s k by (simp add: ll unshift_shift)
qed

theorem unscramble_unshift_inverse_witness:
  "unscramble_string (Some (scrambled_layout (bytes_of ''ABCDE'') @ [0])) (Some (replicate 6 0))
     = Some (0, Some (bytes_of ''ABCDE'' @ [0]))
   \<and> unscramble_string (Some (bytes_of ''ABCDE'' @ [0])) (Some (replicate 6 0))
     = Some (0, Some (spec_scramble (bytes_of ''ABCDE'') @ [0]))
   \<and> unshift_string (Some (spec_shift 2 (bytes_of ''ABCDE'') @ [0])) 2 (Some (replicate 6 0))
     = Some (0, Some (bytes_of ''ABCDE'' @ [0]))"
  using unscramble_unshift_inverse [of "bytes_of ''ABCDE''" "replicate 6 0" 2]
  by (simp add: bytes_of_def)

text \<open>
  C3. On a 3 wide, 2 high puzzle with solution \<open>ABCDEF\<close> the loops of \<open>formatted_solution\<close>
  visit \<open>sol[j*h + i]\<close>, that is the cells 0, 2, 1, 3, 2, 4, and return \<open>ACBDCE\<close>, while the
  canonical solution string (cells \<open>y\<cdot>W + x\<close>: 0, 3, 1, 4, 2, 5) is \<open>ADBECF\<close>; and
  \<open>unformat_unlocked_sol\<close> writes \<open>UVWXYZ\<close> back into the cells 0, 2, 1, 3, 2, 4, leaving
  \<open>UWYXZF\<close> where writing into the canonical positions gives \<open>UWYVXZ\<close>.
\<close>

theorem formatted_solution_3x2:
  "formatted_solution True (Some example_3x2) = Some (Some (bytes_of ''ACBDCE'' @ [0]))
   \<and> canonical_solution 3 2 (bytes_of ''ABCDEF'') = bytes_of ''ADBECF''
   \<and> map_option (\<lambda>(r, q). (r, map_option solution q))
        (unformat_unlocked_sol (Some example_3x2) (Some (bytes_of ''UVWXYZ'' @ [0])))
       = Some (0, Some (Some (bytes_of ''UWYXZF'' @ [0])))
   \<and> write_back (canonical_cells 3 2) (bytes_of ''ABCDEF'') (bytes_of ''UVWXYZ'')
       = bytes_of ''UWYVXZ''"
  by code_simp

section \<open>Properties of puz_unlock_solution and puz_brute_force_unlock\<close>

lemma sub_char_nz: "sub_char c d \<noteq> 0"
proof (cases "c - word_of_int d < 65")
  case True
  then have "unat (c - word_of_int d) < 65" by (simp add: word_less_nat_alt)
  then have "unat (c - word_of_int d + 26) = unat (c - word_of_int d) + 26"
    by (simp add: unat_word_ariths)
  then have "c - word_of_int d + 26 \<noteq> 0" by (metis add_is_0 unat_0 zero_neq_numeral)
  with True show ?thesis by (simp add: sub_char_def)
next
  case False
  then have "c - word_of_int d \<noteq> 0" by auto
  with False show ?thesis by (simp add: sub_char_def)
qed

lemma subtract_loop_fold:
  "\<forall>j\<in>set js. j < length b \<Longrightarrow>
   subtract_loop digits (map int js) (Some b)
     = Some (Some (fold (\<lambda>j b. b[j := sub_char (b ! j) (digits ! (j mod 4))]) js b))"
proof (induction js arbitrary: b)
  case Nil
  then show ?case by simp
next
  case (Cons j js)
  have m: "nat (int j mod 4) = j mod 4" by (simp add: nat_mod_distrib)
  from Cons.prems have j: "j < length b" by simp
  have "\<forall>i\<in>set js. i < length (b[j := sub_char (b ! j) (digits ! (j mod 4))])"
    using Cons.prems by simp
  from Cons.IH [OF this] j show ?case
    by (simp add: m sub_char_def Let_def)
qed

lemma fold_subtract:
  "m \<le> length b \<Longrightarrow>
   fold (\<lambda>j b. b[j := sub_char (b ! j) (digits ! (j mod 4))]) [0..<m] b
     = map (\<lambda>j. sub_char (b ! j) (digits ! (j mod 4))) [0..<m] @ drop m b"
proof (induction m)
  case 0
  then show ?case by simp
next
  case (Suc m)
  let ?s = "\<lambda>j. sub_char (b ! j) (digits ! (j mod 4))"
  from Suc have IH: "fold (\<lambda>j b. b[j := sub_char (b ! j) (digits ! (j mod 4))]) [0..<m] b
      = map ?s [0..<m] @ drop m b" and m: "m < length b" by simp_all
  have d: "drop m b = b ! m # drop (Suc m) b" using m by (simp add: Cons_nth_drop_Suc)
  have "(map ?s [0..<m] @ drop m b) ! m = b ! m" by (simp add: nth_append d)
  moreover have "(map ?s [0..<m] @ drop m b)[m := x] = map ?s [0..<m] @ x # drop (Suc m) b" for x
    by (simp add: list_update_append d)
  ultimately show ?case by (simp add: IH)
qed

lemma subtract_loop_eq:
  "subtract_loop digits [0..int (length t) - 1] (Some (t @ [0]))
     = Some (Some (subtract_step digits t @ [0]))"
proof -
  have "subtract_loop digits (map int [0..<length t]) (Some (t @ [0]))
     = Some (Some (fold (\<lambda>j b. b[j := sub_char (b ! j) (digits ! (j mod 4))]) [0..<length t] (t @ [0])))"
    by (rule subtract_loop_fold) simp
  moreover have "map (\<lambda>j. sub_char ((t @ [0]) ! j) (digits ! (j mod 4))) [0..<length t]
      = subtract_step digits t"
    by (simp add: subtract_step_def nth_append)
  ultimately show ?thesis
    using fold_subtract [of "length t" "t @ [0]" digits] by (simp add: upto_map_nat)
qed

lemma subtract_step_nz: "0 \<notin> set (subtract_step digits t)"
  by (auto simp: subtract_step_def sub_char_nz)

lemma length_subtract_step [simp]: "length (subtract_step digits t) = length t"
  by (simp add: subtract_step_def)

lemma length_unscramble_step [simp]: "length (unscramble_step t) = length t"
  by (simp add: unscramble_step_def)

lemma set_unscramble_step: "set (unscramble_step t) \<subseteq> set t"
proof
  fix x assume "x \<in> set (unscramble_step t)"
  then obtain p where p: "p < length t" and x: "x = t ! scr_source (length t) p"
    by (auto simp: unscramble_step_def)
  with scr_source_lt [OF p] show "x \<in> set t" by simp
qed

lemma length_unshift_step [simp]: "length (unshift_step k t) = length t"
  by (simp add: unshift_step_def)


lemma length_decode_round [simp]: "length (decode_round digits d t) = length t"
  by (simp add: decode_round_def)

lemma decode_round_nz: "0 \<notin> set (decode_round digits d t)"
  by (simp add: decode_round_def subtract_step_nz)

lemma word_of_small_int:
  assumes "0 \<le> d" "d < 2 ^ 31"
  shows "sint (word_of_int d :: 32 word) = d" and "unat (word_of_int d :: 32 word) = nat d"
proof -
  show s: "sint (word_of_int d :: 32 word) = d"
    using assms by (simp add: int_word_sint)
  have "uint (word_of_int d :: 32 word) = d"
    using sint_nonneg_uint [of "word_of_int d"] s assms(1) by simp
  then show "unat (word_of_int d :: 32 word) = nat d" by (simp add: unat_eq_nat_uint del: nat_uint_eq)
qed

lemma unlock_rounds_eq:
  assumes "0 \<notin> set t" "length w2 = Suc (length t)"
    and "\<forall>i\<in>set is. 0 \<le> digits ! nat i \<and> digits ! nat i < 2 ^ 31"
  shows "unlock_rounds digits (int (length t)) is (Some (t @ [0])) (Some w2)
     = Some (case decode_rounds digits is t w2 of Inl _ \<Rightarrow> Inl ()
             | Inr (a, b) \<Rightarrow> Inr (Some (a @ [0]), Some b))"
  using assms
proof (induction "is" arbitrary: t w2)
  case Nil
  then show ?case by simp
next
  case (Cons i "is")
  let ?d = "digits ! nat i"
  let ?u = "unscramble_step t"
  from Cons.prems(3) have d: "0 \<le> ?d" "?d < 2 ^ 31" by simp_all
  note w = word_of_small_int [OF d]
  have 1: "unscramble_string (Some (t @ [0])) (Some w2) = Some (0, Some (?u @ [0]))"
    by (rule unscramble_string_eq [OF Cons.prems(1,2)])
  have uz: "0 \<notin> set ?u" using Cons.prems(1) set_unscramble_step by blast
  have 2: "unshift_string (Some (?u @ [0])) (word_of_int ?d) (Some (t @ [0]))
      = (if int (length t) < ?d then Some (-1, Some (t @ [0]))
         else Some (0, Some (unshift_step (nat ?d) ?u @ [0])))"
    using unshift_string_eq [OF uz, of "t @ [0]" "word_of_int ?d"] d by (simp add: w)
  show ?case
  proof (cases "int (length t) < ?d")
    case True
    then show ?thesis by (simp add: 1 2)
  next
    case False
    then have k: "nat ?d \<le> length t" by simp
    let ?s = "unshift_step (nat ?d) ?u"
    have 3: "subtract_loop digits [0..int (length t) - 1] (Some (?s @ [0]))
        = Some (Some (decode_round digits ?d t @ [0]))"
      using subtract_loop_eq [of digits ?s] k by (simp add: decode_round_def)
    have "unlock_rounds digits (int (length (decode_round digits ?d t))) is
            (Some (decode_round digits ?d t @ [0])) (Some (?u @ [0]))
        = Some (case decode_rounds digits is (decode_round digits ?d t) (?u @ [0]) of
                  Inl _ \<Rightarrow> Inl () | Inr (a, b) \<Rightarrow> Inr (Some (a @ [0]), Some b))"
      by (rule Cons.IH) (use Cons.prems(3) k in \<open>simp_all add: decode_round_nz\<close>)
    with False k show ?thesis by (simp add: 1 2 3)
  qed
qed

lemma format_loop_eq:
  assumes "\<forall>k\<in>set ks. k < length s"
    and "index + length (non_dots (map (\<lambda>k. s ! k) ks)) \<le> length out"
  shows "format_loop (Some s) (map int ks) (Some out) (int index)
     = Some (Some (take index out @ non_dots (map (\<lambda>k. s ! k) ks)
          @ drop (index + length (non_dots (map (\<lambda>k. s ! k) ks))) out))"
  using assms
proof (induction ks arbitrary: out index)
  case Nil
  then show ?case by (simp add: non_dots_def)
next
  case (Cons k ks)
  from Cons.prems have k: "k < length s" and ks: "\<forall>k\<in>set ks. k < length s" by simp_all
  show ?case
  proof (cases "s ! k = 46")
    case True
    with Cons.prems have "index + length (non_dots (map (\<lambda>k. s ! k) ks)) \<le> length out"
      by (simp add: non_dots_def)
    from Cons.IH [OF ks this] True k show ?thesis by (simp add: non_dots_def)
  next
    case False
    let ?n = "length (non_dots (map (\<lambda>k. s ! k) ks))"
    from False Cons.prems have le: "Suc index + ?n \<le> length out"
      by (simp add: non_dots_def)
    then have i: "index < length out" by simp
    have e: "int (Suc index) = int index + 1" by simp
    have "format_loop (Some s) (map int ks) (Some (out[index := s ! k])) (int (Suc index))
      = Some (Some (take (Suc index) (out[index := s ! k]) @ non_dots (map (\<lambda>k. s ! k) ks)
          @ drop (Suc index + ?n) (out[index := s ! k])))"
      by (rule Cons.IH [OF ks]) (use le in simp)
    then have "format_loop (Some s) (map int ks) (Some (out[index := s ! k])) (int index + 1)
      = Some (Some (take index out @ [s ! k] @ non_dots (map (\<lambda>k. s ! k) ks)
          @ drop (Suc index + ?n) out))"
      unfolding e using i by (simp add: take_Suc_conv_app_nth)
    then show ?thesis
      using False k i by (simp add: non_dots_def)
  qed
qed

lemma strip_loop_eq:
  assumes "\<forall>k\<in>set ks. k < length s"
    and "index + length (non_dots (map (\<lambda>k. s ! k) ks)) \<le> length out"
  shows "strip_loop (map int ks) (Some s) (Some out) (int index)
     = Some (Some (take index out @ non_dots (map (\<lambda>k. s ! k) ks)
          @ drop (index + length (non_dots (map (\<lambda>k. s ! k) ks))) out))"
  using assms
proof (induction ks arbitrary: out index)
  case Nil
  then show ?case by (simp add: non_dots_def)
next
  case (Cons k ks)
  from Cons.prems have k: "k < length s" and ks: "\<forall>k\<in>set ks. k < length s" by simp_all
  show ?case
  proof (cases "s ! k = 46")
    case True
    with Cons.prems have "index + length (non_dots (map (\<lambda>k. s ! k) ks)) \<le> length out"
      by (simp add: non_dots_def)
    from Cons.IH [OF ks this] True k show ?thesis by (simp add: non_dots_def)
  next
    case False
    let ?n = "length (non_dots (map (\<lambda>k. s ! k) ks))"
    from False Cons.prems have le: "Suc index + ?n \<le> length out"
      by (simp add: non_dots_def)
    then have i: "index < length out" by simp
    have e: "int (Suc index) = int index + 1" by simp
    have "strip_loop (map int ks) (Some s) (Some (out[index := s ! k])) (int (Suc index))
      = Some (Some (take (Suc index) (out[index := s ! k]) @ non_dots (map (\<lambda>k. s ! k) ks)
          @ drop (Suc index + ?n) (out[index := s ! k])))"
      by (rule Cons.IH [OF ks]) (use le in simp)
    then have "strip_loop (map int ks) (Some s) (Some (out[index := s ! k])) (int index + 1)
      = Some (Some (take index out @ [s ! k] @ non_dots (map (\<lambda>k. s ! k) ks)
          @ drop (Suc index + ?n) out))"
      unfolding e using i by (simp add: take_Suc_conv_app_nth)
    then show ?thesis
      using False k i by (simp add: non_dots_def)
  qed
qed


lemma strip_and_cksum:
  assumes "length w2 = Suc (length cand)"
  shows "strip_loop [0..int (length cand) - 1] (Some (cand @ [0])) (Some w2) 0
           \<bind> (\<lambda>w. wr w (int (length cand)) 0)
           \<bind> (\<lambda>w. puz_cksum_region w (int (length cand)) 0)
         = Some (cksum_loop (checked_bytes cand w2) 0)"
proof -
  let ?L = "length cand"
  have m: "map (\<lambda>k. (cand @ [0]) ! k) [0..<?L] = cand"
    by (intro nth_equalityI) (simp_all add: nth_append)
  have n: "length (non_dots cand) \<le> ?L" by (simp add: non_dots_def)
  have "strip_loop (map int [0..<?L]) (Some (cand @ [0])) (Some w2) (int 0)
      = Some (Some (take 0 w2 @ non_dots (map (\<lambda>k. (cand @ [0]) ! k) [0..<?L])
          @ drop (0 + length (non_dots (map (\<lambda>k. (cand @ [0]) ! k) [0..<?L]))) w2))"
    by (rule strip_loop_eq) (use assms n in \<open>simp_all add: m\<close>)
  then have 1: "strip_loop [0..int ?L - 1] (Some (cand @ [0])) (Some w2) 0
      = Some (Some (non_dots cand @ drop (length (non_dots cand)) w2))"
    by (simp add: m upto_map_nat)
  let ?w = "non_dots cand @ drop (length (non_dots cand)) w2"
  have len: "length ?w = Suc ?L" using assms n by simp
  have t: "take ?L (?w[?L := 0]) = checked_bytes cand w2"
    by (simp add: checked_bytes_def)
  show ?thesis
    using len by (simp add: 1 puz_cksum_region_def t del: append_assoc)
qed

lemma decode_rounds_Inr:
  "decode_rounds digits is t w2 = Inr (cand, w2') \<Longrightarrow> length w2 = Suc (length t) \<Longrightarrow>
   (\<forall>i\<in>set is. 0 \<le> digits ! nat i) \<Longrightarrow>
   length cand = length t \<and> length w2' = Suc (length t)"
proof (induction "is" arbitrary: t w2)
  case Nil
  then show ?case by simp
next
  case (Cons i "is")
  let ?d = "digits ! nat i"
  from Cons.prems(1) have le: "\<not> int (length t) < ?d"
    and r: "decode_rounds digits is (decode_round digits ?d t) (unscramble_step t @ [0]) = Inr (cand, w2')"
    by (auto split: if_splits)
  from le have k: "nat ?d \<le> length t" by simp
  from Cons.IH [OF r] Cons.prems(3) k show ?case by simp
qed

lemma cstr_nz: "0 \<notin> set (cstr b)"
  by (auto simp: cstr_def dest: set_takeWhileD)

lemma strncpy_whole:
  assumes "0 \<in> set b"
  shows "strncpy (calloc (int (length (cstr b)) + 1)) 0 (Some b) 0 (int (length (cstr b)) + 1)
         = Some (Some (cstr b @ [0]))"
proof -
  let ?L = "length (cstr b)"
  have n: "nat (int ?L + 1) = Suc ?L" by simp
  have "cstr (take (Suc ?L) b) = cstr b"
    using take_strlen [OF assms] cstr_nz [of b] by simp
  then show ?thesis
    using strlen_lt [OF assms] by (simp add: strncpy_def calloc_def Let_def n)
qed

lemma unlock_decode_alloc_fail:
  assumes "formatted_solution a0 puz = Some (Some b)" "0 \<in> set b" "\<not> (a1 \<and> a2)"
  shows "unlock_decode a0 a1 a2 puz digits = Some (Inl (-3))"
  using assms by (auto simp: unlock_decode_def Sstrlen_def Let_def calloc_def)

lemma unlock_decode_eq:
  assumes fs: "formatted_solution a0 puz = Some (Some b)" and z: "0 \<in> set b"
    and dg: "\<forall>i\<in>set [3, 2, 1, 0]. 0 \<le> digits ! nat i \<and> digits ! nat i < 2 ^ 31"
  shows "unlock_decode a0 True True puz digits
     = Some (case decode_rounds digits [3, 2, 1, 0] (cstr b) (replicate (Suc (length (cstr b))) 0) of
               Inl _ \<Rightarrow> Inl (-4)
             | Inr (cand, w2) \<Rightarrow> Inr (Some (cand @ [0]), cksum_loop (checked_bytes cand w2) 0))"
proof -
  define t where "t = cstr b"
  define L where "L = length t"
  define w where "w = replicate (Suc L) (0::byte)"
  define ds :: "int list" where "ds = [3, 2, 1, 0]"
  have sl: "Sstrlen (Some b) = Some L" using z by (simp add: Sstrlen_def L_def t_def)
  have c: "calloc (int L + 1) = Some w" by (simp add: calloc_def nat_add_distrib w_def)
  have cp: "strncpy (Some w) 0 (Some b) 0 (int L + 1) = Some (Some (t @ [0]))"
    using strncpy_whole [OF z] c by (simp add: L_def t_def)
  have lw: "length w = Suc (length t)" by (simp add: w_def L_def)
  have rounds: "unlock_rounds digits (int L) ds (Some (t @ [0])) (Some w)
     = Some (case decode_rounds digits ds t w of Inl _ \<Rightarrow> Inl ()
             | Inr (a, b) \<Rightarrow> Inr (Some (a @ [0]), Some b))"
    unfolding L_def ds_def
    by (rule unlock_rounds_eq [OF _ lw dg]) (simp add: t_def cstr_nz)
  have u: "unlock_decode a0 True True puz digits
     = unlock_rounds digits (int L) ds (Some (t @ [0])) (Some w) \<bind>
         case_sum (\<lambda>x. Some (Inl (- 4)))
          (\<lambda>(workspace1, workspace2).
              strip_loop [0..int L - 1] workspace1 workspace2 0 \<bind>
              (\<lambda>workspace2. wr workspace2 (int L) 0 \<bind>
                  (\<lambda>workspace2. puz_cksum_region workspace2 (int L) 0 \<bind>
                      (\<lambda>cksum. Some (Inr (workspace1, cksum))))))"
    unfolding unlock_decode_def ds_def [symmetric]
    by (simp add: fs sl c cp Let_def)
  have "unlock_decode a0 True True puz digits
     = Some (case decode_rounds digits ds t w of
               Inl _ \<Rightarrow> Inl (-4)
             | Inr (cand, w2) \<Rightarrow> Inr (Some (cand @ [0]), cksum_loop (checked_bytes cand w2) 0))"
  proof (cases "decode_rounds digits ds t w")
    case (Inl u)
    then show ?thesis unfolding u rounds by simp
  next
    case (Inr r)
    obtain cand w2 where r: "r = (cand, w2)" by (cases r)
    from decode_rounds_Inr [OF Inr [unfolded r] lw] dg
    have len: "length cand = L" "length w2 = Suc L" by (simp_all add: ds_def L_def)
    have sc: "strip_loop [0..int L - 1] (Some (cand @ [0])) (Some w2) 0
           \<bind> (\<lambda>w. wr w (int L) 0)
           \<bind> (\<lambda>w. puz_cksum_region w (int L) 0)
         = Some (cksum_loop (checked_bytes cand w2) 0)"
      using strip_and_cksum [of w2 cand] len by simp
    show ?thesis unfolding u rounds Inr r using sc by (auto simp: bind_eq_Some_conv)
  qed
  then show ?thesis unfolding ds_def t_def w_def L_def .
qed

lemma formatted_solution_nul:
  assumes "formatted_solution a0 puz = Some (Some b)"
  shows "0 \<in> set b"
proof -
  from assms obtain out n where "wr out n 0 = Some (Some b)"
    by (auto simp: formatted_solution_def Let_def bind_eq_Some_conv split: if_splits)
  then show ?thesis
    by (auto simp: wr_def split: option.splits if_splits intro: set_update_memI)
qed

lemma length_canonical_cells: "length (canonical_cells W H) = W * H"
  by (simp add: canonical_cells_def length_concat comp_def sum_list_triv)

lemma set_canonical_cells_square: "set (canonical_cells n n) = {0..<n * n}"
proof (intro set_eqI iffI)
  fix m assume "m \<in> set (canonical_cells n n)"
  then obtain x y where x: "x < n" and y: "y < n" and m: "m = y * n + x"
    by (auto simp: canonical_cells_def)
  have "y * n + x < y * n + n" using x by simp
  also have "\<dots> = Suc y * n" by simp
  also have "\<dots> \<le> n * n" using y by (metis Suc_leI mult.commute mult_le_mono2)
  finally show "m \<in> {0..<n * n}" using m by simp
next
  fix m assume "m \<in> {0..<n * n}"
  then have m: "m < n * n" by simp
  then have n: "0 < n" by (cases n) simp_all
  have d: "m div n < n" using m by (simp add: less_mult_imp_div_less)
  have r: "m mod n < n" using n by simp
  have "m = (m div n) * n + m mod n" by simp
  with d r show "m \<in> set (canonical_cells n n)"
    unfolding canonical_cells_def by (auto intro!: bexI [of _ "m mod n"] image_eqI [of _ _ "m div n"])
qed

lemma distinct_canonical_cells: "distinct (canonical_cells n n)"
  by (rule card_distinct) (simp add: set_canonical_cells_square length_canonical_cells)

lemma visited_square: "visited (int n) (int n) = map int (canonical_cells n n)"
  by (simp add: visited_def canonical_cells_def upto_map_nat map_concat comp_def)

lemma canonical_solution_non_dots:
  "canonical_solution W H s = non_dots (map (\<lambda>k. s ! k) (canonical_cells W H))"
  by (simp add: canonical_solution_def non_dots_def)

lemma count_loop_eq:
  "\<forall>k\<in>set ks. k < length s \<Longrightarrow>
   count_loop (Some s) (map int ks) c = Some (c + int (length (non_dots (map (\<lambda>k. s ! k) ks))))"
  by (induction ks arbitrary: c) (simp_all add: non_dots_def)

lemma length_non_dots_perm:
  assumes "distinct xs" "distinct ys" "set xs = set ys"
  shows "length (non_dots (map f xs)) = length (non_dots (map f ys))"
proof -
  have "length (non_dots (map f zs)) = card ({x. f x \<noteq> 46} \<inter> set zs)" if "distinct zs" for zs
    using distinct_length_filter [OF that, of "\<lambda>x. f x \<noteq> 46"]
    by (simp add: non_dots_def filter_map comp_def)
  with assms show ?thesis by simp
qed

lemma length_canonical_solution:
  "length (canonical_solution n n s) = length (non_dots (map (\<lambda>k. s ! k) [0..<n * n]))"
  unfolding canonical_solution_non_dots
  by (rule length_non_dots_perm) (simp_all add: distinct_canonical_cells set_canonical_cells_square)

lemma formatted_solution_square:
  assumes sq: "width (header p) = height (header p)" and s: "solution p = Some s"
    and n: "n = unat (width (header p))" and le: "n * n \<le> length s"
  shows "formatted_solution True (Some p) = Some (Some (canonical_solution n n s @ [0]))"
proof -
  define t where "t = canonical_solution n n s"
  have w: "puz_width_get (Some p) = int n" "puz_height_get (Some p) = int n"
    using sq n by (simp_all add: puz_width_get_def puz_height_get_def)
  have b: "[0..int n * int n - 1] = map int [0..<n * n]"
    using upto_map_nat [of "n * n"] by simp
  have c: "count_loop (Some s) (map int [0..<n * n]) 0 = Some (int (length t))"
    using count_loop_eq [of "[0..<n * n]" s 0] le
    by (simp add: t_def length_canonical_solution)
  have in_b: "\<forall>k\<in>set (canonical_cells n n). k < length s"
    using le by (simp add: set_canonical_cells_square)
  have f: "format_loop (Some s) (map int (canonical_cells n n))
        (Some (replicate (length t) 0 @ [0])) (int 0) = Some (Some (t @ [0]))"
    using format_loop_eq [OF in_b, of 0 "replicate (length t) 0 @ [0]"]
    by (simp add: t_def canonical_solution_non_dots)
  have ca: "calloc (int (length t) + 1) = Some (replicate (length t) 0 @ [0])"
    by (simp add: calloc_def nat_add_distrib replicate_append_same)
  show ?thesis
    unfolding formatted_solution_def t_def [symmetric]
    using f by (simp add: w b c s ca visited_square puz_solution_get_def Let_def)
qed

lemma unformat_loop_eq:
  assumes "distinct ks" and "\<forall>k\<in>set ks. k < length s"
    and "index + length (non_dots (map (\<lambda>k. s ! k) ks)) \<le> length f"
  shows "unformat_loop (map int ks) (Some s) (Some f) (int index)
     = Some (Some (write_back ks s (drop index f)))"
  using assms
proof (induction ks arbitrary: s index)
  case Nil
  then show ?case by simp
next
  case (Cons k ks)
  from Cons.prems have k: "k < length s" and ks: "\<forall>k\<in>set ks. k < length s"
    and d: "distinct ks" and nk: "k \<notin> set ks" by simp_all
  show ?case
  proof (cases "s ! k = 46")
    case True
    with Cons.prems have "index + length (non_dots (map (\<lambda>k. s ! k) ks)) \<le> length f"
      by (simp add: non_dots_def)
    from Cons.IH [OF d ks this] True k show ?thesis by simp
  next
    case False
    let ?s = "s[k := f ! index]"
    have same: "map (\<lambda>j. ?s ! j) ks = map (\<lambda>j. s ! j) ks"
      using nk by (intro map_cong refl) (metis nth_list_update_neq)
    from False Cons.prems have le: "Suc index + length (non_dots (map (\<lambda>k. s ! k) ks)) \<le> length f"
      by (simp add: non_dots_def)
    then have i: "index < length f" by simp
    have e: "int (Suc index) = int index + 1" by simp
    have ks': "\<forall>k\<in>set ks. k < length ?s" using ks by simp
    have le': "Suc index + length (non_dots (map (\<lambda>k. ?s ! k) ks)) \<le> length f"
      unfolding same by (rule le)
    have "unformat_loop (map int ks) (Some ?s) (Some f) (int (Suc index))
       = Some (Some (write_back ks ?s (drop (Suc index) f)))"
      by (rule Cons.IH [OF d ks' le'])
    then show ?thesis
      unfolding e using False k i by (simp add: hd_drop_conv_nth drop_Suc tl_drop)
  qed
qed

lemma decode_rounds_4:
  "decode_rounds digits [3, 2, 1, 0] t w =
     (if int (length t) < digits ! 3 \<or> int (length t) < digits ! 2
         \<or> int (length t) < digits ! 1 \<or> int (length t) < digits ! 0 then Inl ()
      else Inr (candidate digits t, unscramble_step (rounds3 digits t) @ [0]))"
  by (simp add: candidate_def rounds3_def)


lemma code_digits_nth:
  "code_digits code = [code_digits code ! 0, code_digits code ! 1, code_digits code ! 2,
     code_digits code ! 3]"
  by (simp add: code_digits_def)

lemma too_short_iff:
  "(\<exists>d\<in>set (code_digits code). L < d) \<longleftrightarrow>
     (L < code_digits code ! 3 \<or> L < code_digits code ! 2 \<or> L < code_digits code ! 1
       \<or> L < code_digits code ! 0)"
  by (subst code_digits_nth) auto

lemma canonical_nz:
  assumes "n * n \<le> length s" "0 \<notin> set (take (n * n) s)"
  shows "0 \<notin> set (canonical_solution n n s)"
proof
  assume "0 \<in> set (canonical_solution n n s)"
  then obtain k where k: "k \<in> set (canonical_cells n n)" and z: "s ! k = 0"
    by (auto simp: canonical_solution_def)
  from k have "k < n * n" by (simp add: set_canonical_cells_square)
  with assms(1) have "take (n * n) s ! k \<in> set (take (n * n) s)" by (intro nth_mem) simp
  with \<open>k < n * n\<close> z assms(2) show False by simp
qed

lemma unformat_unlocked_sol_square:
  assumes sq: "width (header p) = height (header p)" and s: "solution p = Some s"
    and n: "n = unat (width (header p))" and le: "n * n \<le> length s"
    and f: "length (canonical_solution n n s) \<le> length f"
  shows "unformat_unlocked_sol (Some p) (Some f)
     = Some (0, Some (p\<lparr>solution := Some (write_back (canonical_cells n n) s f)\<rparr>))"
proof -
  have w: "puz_width_get (Some p) = int n" "puz_height_get (Some p) = int n"
    using sq n by (simp_all add: puz_width_get_def puz_height_get_def)
  have in_b: "\<forall>k\<in>set (canonical_cells n n). k < length s"
    using le by (simp add: set_canonical_cells_square)
  have "unformat_loop (map int (canonical_cells n n)) (Some s) (Some f) (int 0)
     = Some (Some (write_back (canonical_cells n n) s (drop 0 f)))"
    by (rule unformat_loop_eq [OF distinct_canonical_cells in_b])
       (use f in \<open>simp add: canonical_solution_non_dots\<close>)
  then show ?thesis
    by (simp add: unformat_unlocked_sol_def w s visited_square puz_solution_get_def Let_def)
qed

lemma puz_unlock_solution_formatted:
  assumes fs: "formatted_solution a0 (Some p) = Some (Some b)"
  shows "puz_unlock_solution a0 a1 a2 (Some p) code =
     (if scrambled_tag (header p) = 0 then Some (1, Some p)
      else if 0 \<in> set (code_digits code) then Some (-2, Some p)
      else if \<not> (a1 \<and> a2) then Some (-3, Some p)
      else if \<exists>d\<in>set (code_digits code). int (length (cstr b)) < d then Some (-4, Some p)
      else if cksum_loop (checked (code_digits code) (cstr b)) 0 \<noteq> scrambled_cksum (header p)
        then Some (2, Some p)
      else map_option (\<lambda>(r, q). (0, snd (puz_lock_set q 0)))
             (unformat_unlocked_sol (Some p)
                (Some (candidate (code_digits code) (cstr b) @ [0]))))"
proof -
  define t where "t = cstr b"
  define ds where "ds = code_digits code"
  have z: "0 \<in> set b" by (rule formatted_solution_nul [OF fs])
  have m: "x mod 10 < 2147483648" for x :: int by (rule less_trans [of _ 10]) simp_all
  have dg: "\<forall>i\<in>set [3, 2, 1, 0]. 0 \<le> ds ! nat i \<and> ds ! nat i < 2 ^ 31"
    by (simp add: ds_def code_digits_def m)
  have ex: "list_ex (\<lambda>d. d = 0) ds \<longleftrightarrow> 0 \<in> set ds" by (auto simp: list_ex_iff)
  have dec: "unlock_decode a0 True True (Some p) ds
      = Some (if \<exists>d\<in>set ds. int (length t) < d then Inl (-4)
              else Inr (Some (candidate ds t @ [0]), cksum_loop (checked ds t) 0))"
    using unlock_decode_eq [OF fs z dg]
    unfolding decode_rounds_4 ds_def too_short_iff t_def
    by (simp add: checked_def)
  have fail: "\<not> (a1 \<and> a2) \<Longrightarrow> unlock_decode a0 a1 a2 (Some p) ds = Some (Inl (-3))"
    by (rule unlock_decode_alloc_fail [OF fs z]) simp
  have last: "unformat_unlocked_sol (Some p) (Some (candidate ds t @ [0])) \<bind>
        (\<lambda>(r, puz). let (r, puz) = puz_lock_set puz 0 in Some (0 :: int, puz))
      = map_option (\<lambda>(r, q). (0, snd (puz_lock_set q 0)))
          (unformat_unlocked_sol (Some p) (Some (candidate ds t @ [0])))"
    by (cases "unformat_unlocked_sol (Some p) (Some (candidate ds t @ [0]))")
       (auto split: prod.splits)
  show ?thesis
  proof (cases "a1 \<and> a2")
    case True
    then have a: "a1 = True" "a2 = True" by simp_all
    show ?thesis
      unfolding puz_unlock_solution_def ds_def [symmetric] t_def [symmetric] a
      using last by (simp add: ex dec Let_def)
  next
    case False
    show ?thesis
      unfolding puz_unlock_solution_def ds_def [symmetric] t_def [symmetric]
      using False by (simp add: ex fail Let_def)
  qed
qed

lemma puz_unlock_solution_eq:
  assumes wf: "unlock_wf p"
  shows "puz_unlock_solution True a1 a2 (Some p) code = Some (unlock_result a1 a2 p code)"
    and "formatted_solution True (Some p) = Some (Some (puz_canonical p @ [0]))"
    and "0 \<notin> set (puz_canonical p)"
proof -
  define n where "n = unat (width (header p))"
  from wf obtain s where s: "solution p = Some s"
    by (auto simp: unlock_wf_def split: option.splits)
  from wf s have sq: "width (header p) = height (header p)"
    and le: "n * n \<le> length s" and nz: "0 \<notin> set (take (n * n) s)"
    by (auto simp: unlock_wf_def n_def)
  define t where "t = canonical_solution n n s"
  define ds where "ds = code_digits code"
  have can: "puz_canonical p = t" using s sq by (simp add: puz_canonical_def t_def n_def)
  have wb: "puz_written_back p f = Some (write_back (canonical_cells n n) s f)" for f
    using s sq by (simp add: puz_written_back_def n_def)
  have tz: "0 \<notin> set t" unfolding t_def by (rule canonical_nz [OF le nz])
  have fs: "formatted_solution True (Some p) = Some (Some (t @ [0]))"
    unfolding t_def by (rule formatted_solution_square [OF sq s n_def le])
  have ct: "cstr (t @ [0]) = t" using tz by simp
  have lc: "length (candidate ds t) = length t" by (simp add: candidate_def rounds3_def)
  have un: "unformat_unlocked_sol (Some p) (Some (candidate ds t @ [0]))
     = Some (0, Some (p\<lparr>solution := Some (write_back (canonical_cells n n) s (candidate ds t @ [0]))\<rparr>))"
    by (rule unformat_unlocked_sol_square [OF sq s n_def le]) (simp add: lc t_def [symmetric])
  show "puz_unlock_solution True a1 a2 (Some p) code = Some (unlock_result a1 a2 p code)"
    unfolding puz_unlock_solution_formatted [OF fs] ct unlock_result_def can ds_def [symmetric]
    by (simp add: un wb puz_lock_set_def Let_def)
  show "formatted_solution True (Some p) = Some (Some (puz_canonical p @ [0]))"
    unfolding can by (rule fs)
  show "0 \<notin> set (puz_canonical p)" unfolding can by (rule tz)
qed

lemma format_loop_null:
  "format_loop sol ks None i = None \<or> format_loop sol ks None i = Some None"
  by (induction ks arbitrary: i) (auto simp: wr_def split: option.splits)

lemma formatted_solution_fail: "formatted_solution False (Some p) = None"
proof -
  have "(format_loop sol ks None i \<bind> (\<lambda>out. wr out k (0 :: byte) \<bind> (\<lambda>out. Some out))) = None"
    for sol ks i k
    using format_loop_null [of sol ks i] by (auto simp: wr_def)
  then show ?thesis
    by (cases "count_loop (puz_solution_get (Some p))
          [0..puz_width_get (Some p) * puz_height_get (Some p) - 1] 0")
       (simp_all add: formatted_solution_def Let_def)
qed

lemma puz_unlock_solution_fs_fail:
  assumes "scrambled_tag (header p) \<noteq> 0" and "0 \<notin> set (code_digits code)"
  shows "puz_unlock_solution False a1 a2 (Some p) code = None"
proof -
  have "\<not> list_ex (\<lambda>d. d = 0) (code_digits code)" using assms(2) by (auto simp: list_ex_iff)
  then show ?thesis
    using assms(1)
    by (simp add: puz_unlock_solution_def unlock_decode_def formatted_solution_fail Let_def)
qed





lemma unlock_decode_Inl:
  assumes "unlock_decode a0 a1 a2 puz ds = Some (Inl e)"
  shows "e = -3 \<or> e = -4"
proof -
  from assms obtain inp len where "formatted_solution a0 puz = Some inp" "Sstrlen inp = Some len"
    and r: "(let len = int len;
         workspace1 = (if a1 then calloc (len + 1) else None);
         workspace2 = (if a2 then calloc (len + 1) else None)
     in if workspace1 = None \<or> workspace2 = None then Some (Inl (-3))
     else do {
       workspace1 \<leftarrow> strncpy workspace1 0 inp 0 (len + 1);
       r \<leftarrow> unlock_rounds ds len [3, 2, 1, 0] workspace1 workspace2;
       case r of
         Inl _ \<Rightarrow> Some (Inl (-4))
       | Inr (workspace1, workspace2) \<Rightarrow> do {
           workspace2 \<leftarrow> strip_loop [0..len - 1] workspace1 workspace2 0;
           workspace2 \<leftarrow> wr workspace2 len 0;
           cksum \<leftarrow> puz_cksum_region workspace2 len 0x0000;
           Some (Inr (workspace1, cksum)) } }) = Some (Inl e)"
    unfolding unlock_decode_def by (auto simp: bind_eq_Some_conv)
  show ?thesis
  proof (cases "a1 \<and> a2")
    case False
    with r show ?thesis by (auto simp: Let_def calloc_def split: if_splits)
  next
    case True
    with r have "\<exists>x :: unit + byte list option \<times> byte list option. (case x of
         Inl _ \<Rightarrow> Some (Inl (-4))
       | Inr (workspace1, workspace2) \<Rightarrow> do {
           workspace2 \<leftarrow> strip_loop [0..int len - 1] workspace1 workspace2 0;
           workspace2 \<leftarrow> wr workspace2 (int len) 0;
           cksum \<leftarrow> puz_cksum_region workspace2 (int len) 0x0000;
           Some (Inr (workspace1, cksum)) }) = Some (Inl e)"
      by (auto simp: Let_def calloc_def bind_eq_Some_conv simp del: unlock_rounds.simps)
    then obtain x :: "unit + byte list option \<times> byte list option" where
      x: "(case x of
         Inl _ \<Rightarrow> Some (Inl (-4))
       | Inr (workspace1, workspace2) \<Rightarrow> do {
           workspace2 \<leftarrow> strip_loop [0..int len - 1] workspace1 workspace2 0;
           workspace2 \<leftarrow> wr workspace2 (int len) 0;
           cksum \<leftarrow> puz_cksum_region workspace2 (int len) 0x0000;
           Some (Inr (workspace1, cksum)) }) = Some (Inl e)"
      by blast
    show ?thesis
    proof (cases x)
      case (Inl u)
      with x show ?thesis by simp
    next
      case (Inr y)
      obtain w1 w2 where "y = (w1, w2)" by (cases y)
      with x Inr show ?thesis by (auto simp: bind_eq_Some_conv)
    qed
  qed
qed

lemma unlock_shape:
  assumes "puz_unlock_solution a0 a1 a2 puz code = Some (r, q)"
  shows "(r = -1 \<and> puz = None \<and> q = None)
    \<or> (\<exists>p. puz = Some p \<and> scrambled_tag (header p) = 0 \<and> r = 1 \<and> q = puz)
    \<or> (\<exists>p. puz = Some p \<and> scrambled_tag (header p) \<noteq> 0 \<and> 0 \<in> set (code_digits code)
          \<and> r = -2 \<and> q = puz)
    \<or> (\<exists>p. puz = Some p \<and> scrambled_tag (header p) \<noteq> 0 \<and> 0 \<notin> set (code_digits code)
          \<and> (r = -3 \<or> r = -4 \<or> r = 2) \<and> q = puz)
    \<or> (\<exists>p s'. puz = Some p \<and> scrambled_tag (header p) \<noteq> 0 \<and> 0 \<notin> set (code_digits code)
          \<and> r = 0
          \<and> q = Some (p\<lparr>header := (header p)\<lparr>scrambled_tag := 0, scrambled_cksum := 0\<rparr>,
                         solution := s'\<rparr>))"
proof (cases puz)
  case None
  with assms show ?thesis by (simp add: puz_unlock_solution_def)
next
  case (Some p)
  note p = Some
  show ?thesis
  proof (cases "scrambled_tag (header p) = 0")
    case True
    with assms p show ?thesis by (auto simp: puz_unlock_solution_def)
  next
    case False
    note tag = False
    show ?thesis
    proof (cases "0 \<in> set (code_digits code)")
      case True
      then have "list_ex (\<lambda>d. d = 0) (code_digits code)" by (auto simp: list_ex_iff)
      with assms p tag True show ?thesis by (auto simp: puz_unlock_solution_def Let_def)
    next
      case False
      note dz = False
      then have ex: "\<not> list_ex (\<lambda>d. d = 0) (code_digits code)" by (auto simp: list_ex_iff)
      from assms p tag ex obtain d where
        d: "unlock_decode a0 a1 a2 (Some p) (code_digits code) = Some d"
        and r: "(case d of Inl e \<Rightarrow> Some (e, Some p)
          | Inr (workspace1, cksum) \<Rightarrow>
              if cksum \<noteq> scrambled_cksum (header p) then Some (2, Some p)
              else unformat_unlocked_sol (Some p) workspace1 \<bind>
                (\<lambda>(r, puz). let (r, puz) = puz_lock_set puz 0 in Some (0, puz))) = Some (r, q)"
        by (auto simp: puz_unlock_solution_def Let_def bind_eq_Some_conv)
      show ?thesis
      proof (cases d)
        case (Inl e)
        with d unlock_decode_Inl have "e = -3 \<or> e = -4" by blast
        with r Inl p tag dz show ?thesis by auto
      next
        case (Inr x)
        obtain w ck where x: "x = (w, ck)" by (cases x)
        show ?thesis
        proof (cases "ck \<noteq> scrambled_cksum (header p)")
          case True
          with r Inr x p tag dz show ?thesis by auto
        next
          case False
          with r Inr x obtain r' p' where
            u: "unformat_unlocked_sol (Some p) w = Some (r', p')"
            and l: "(let (r, puz) = puz_lock_set p' 0 in Some (0 :: int, puz)) = Some (r, q)"
            by (auto simp: bind_eq_Some_conv)
          from u consider "p' = Some p" | s' where "p' = Some (p\<lparr>solution := s'\<rparr>)"
            by (auto simp: unformat_unlocked_sol_def Let_def bind_eq_Some_conv split: if_splits)
          then have "\<exists>s'. r = 0 \<and> q = Some (p\<lparr>header := (header p)\<lparr>scrambled_tag := 0,
                scrambled_cksum := 0\<rparr>, solution := s'\<rparr>)"
          proof cases
            case 1
            with l show ?thesis by (intro exI [of _ "solution p"]) (auto simp: puz_lock_set_def)
          next
            case 2
            with l show ?thesis by (intro exI [of _ s']) (auto simp: puz_lock_set_def)
          qed
          with p tag dz show ?thesis by blast
        qed
      qed
    qed
  qed
qed

lemma unlock_nonzero:
  assumes "puz_unlock_solution a0 a1 a2 puz code = Some (r, q)" "r \<noteq> 0"
  shows "q = puz"
  using unlock_shape [OF assms(1)] assms(2) by auto

lemma unlock_zero:
  assumes "puz_unlock_solution a0 a1 a2 puz code = Some (0, q)"
  shows "\<exists>p s'. puz = Some p \<and> scrambled_tag (header p) \<noteq> 0
     \<and> 0 \<notin> set (code_digits code)
     \<and> q = Some (p\<lparr>header := (header p)\<lparr>scrambled_tag := 0, scrambled_cksum := 0\<rparr>,
                    solution := s'\<rparr>)"
  using unlock_shape [OF assms] by auto

lemma unlock_returns:
  "unlock_wf p \<Longrightarrow> \<exists>r q. puz_unlock_solution True a1 a2 (Some p) code = Some (r, q)"
  using puz_unlock_solution_eq(1) [of p a1 a2 code] by (cases "unlock_result a1 a2 p code") simp

lemma unlock_at_nonzero:
  assumes "unlock_at alloc puz c = Some (r, q)" and "r \<noteq> 0"
  shows "q = puz"
  using assms unlock_nonzero by (auto simp: unlock_at_def split: prod.splits)

lemma unlock_at_zero:
  assumes "unlock_at alloc puz c = Some (0, q)"
  shows "0 \<notin> set (code_digits (word_of_int c))"
  using assms unlock_zero by (fastforce simp: unlock_at_def split: prod.splits)

lemma brute_loop_partial:
  assumes "brute_loop alloc puz codes = Some (r, q)"
  shows "(r = -3 \<and> q = puz
        \<and> (\<forall>c\<in>set codes. \<exists>r'. unlock_at alloc puz c = Some (r', puz) \<and> r' \<noteq> 0))
      \<or> (\<exists>i<length codes. r = codes ! i \<and> unlock_at alloc puz r = Some (0, q)
           \<and> (\<forall>j<i. \<exists>r'. unlock_at alloc puz (codes ! j) = Some (r', puz) \<and> r' \<noteq> 0))"
  using assms
proof (induction codes)
  case Nil
  then show ?case by simp
next
  case (Cons c cs)
  let ?u = "unlock_at alloc puz"
  from Cons.prems obtain r0 q0 where u: "?u c = Some (r0, q0)"
    by (cases "?u c") auto
  show ?case
  proof (cases "r0 = 0")
    case True
    with u Cons.prems have "r = c" "q = q0" by simp_all
    with u True have "\<exists>i<length (c # cs). r = (c # cs) ! i \<and> ?u r = Some (0, q)
        \<and> (\<forall>j<i. \<exists>r'. ?u ((c # cs) ! j) = Some (r', puz) \<and> r' \<noteq> 0)"
      by (intro exI [of _ 0]) simp
    then show ?thesis by blast
  next
    case False
    with u unlock_at_nonzero have q0: "q0 = puz" by blast
    with u False Cons.prems have b: "brute_loop alloc puz cs = Some (r, q)" by simp
    from u False q0 have nc: "\<exists>r'. ?u c = Some (r', puz) \<and> r' \<noteq> 0" by simp
    from Cons.IH [OF b] show ?thesis
    proof
      assume "r = -3 \<and> q = puz \<and> (\<forall>c\<in>set cs. \<exists>r'. ?u c = Some (r', puz) \<and> r' \<noteq> 0)"
      with nc show ?thesis by auto
    next
      assume "\<exists>i<length cs. r = cs ! i \<and> ?u r = Some (0, q)
              \<and> (\<forall>j<i. \<exists>r'. ?u (cs ! j) = Some (r', puz) \<and> r' \<noteq> 0)"
      then obtain i where i: "i < length cs" "r = cs ! i" "?u r = Some (0, q)"
        "\<forall>j<i. \<exists>r'. ?u (cs ! j) = Some (r', puz) \<and> r' \<noteq> 0" by blast
      have "\<forall>j<Suc i. \<exists>r'. ?u ((c # cs) ! j) = Some (r', puz) \<and> r' \<noteq> 0"
        using nc i(4) by (auto simp: less_Suc_eq_0_disj)
      with i have "\<exists>k<length (c # cs). r = (c # cs) ! k \<and> ?u r = Some (0, q)
          \<and> (\<forall>j<k. \<exists>r'. ?u ((c # cs) ! j) = Some (r', puz) \<and> r' \<noteq> 0)"
        by (intro exI [of _ "Suc i"]) simp
      then show ?thesis by blast
    qed
  qed
qed

lemma brute_loop_returns:
  assumes wf: "unlock_wf p" and al: "\<forall>c\<in>set codes. fst (alloc c)"
  shows "\<exists>r q. brute_loop alloc (Some p) codes = Some (r, q)"
  using al
proof (induction codes)
  case Nil
  then show ?case by simp
next
  case (Cons c cs)
  obtain a1 a2 where a: "alloc c = (True, a1, a2)"
    using Cons.prems by (cases "alloc c") auto
  from unlock_returns [OF wf, of a1 a2 "word_of_int c"] a
  obtain r0 q0 where u: "unlock_at alloc (Some p) c = Some (r0, q0)"
    by (auto simp: unlock_at_def)
  show ?case
  proof (cases "r0 = 0")
    case True
    with u show ?thesis by simp
  next
    case False
    with u unlock_at_nonzero have "q0 = Some p" by blast
    with u False Cons show ?thesis by simp
  qed
qed

lemma brute_loop_upto:
  assumes "brute_loop alloc puz [a..b] = Some (r, q)"
  shows "(r = -3 \<and> q = puz
        \<and> (\<forall>c\<in>{a..b}. \<exists>r'. unlock_at alloc puz c = Some (r', puz) \<and> r' \<noteq> 0))
      \<or> (a \<le> r \<and> r \<le> b \<and> unlock_at alloc puz r = Some (0, q)
           \<and> (\<forall>c\<in>{a..<r}. \<exists>r'. unlock_at alloc puz c = Some (r', puz) \<and> r' \<noteq> 0))"
proof -
  let ?u = "unlock_at alloc puz"
  let ?cs = "[a..b]"
  have nth: "?cs ! i = a + int i" if "i < length ?cs" for i using that by simp
  from brute_loop_partial [OF assms] show ?thesis
  proof
    assume "r = -3 \<and> q = puz \<and> (\<forall>c\<in>set ?cs. \<exists>r'. ?u c = Some (r', puz) \<and> r' \<noteq> 0)"
    then show ?thesis by simp
  next
    assume "\<exists>i<length ?cs. r = ?cs ! i \<and> ?u r = Some (0, q)
              \<and> (\<forall>j<i. \<exists>r'. ?u (?cs ! j) = Some (r', puz) \<and> r' \<noteq> 0)"
    then obtain i where i: "i < length ?cs" "r = ?cs ! i" "?u r = Some (0, q)"
      and f: "\<forall>j<i. \<exists>r'. ?u (?cs ! j) = Some (r', puz) \<and> r' \<noteq> 0" by blast
    from i(1,2) nth have r: "r = a + int i" by simp
    from i(1) have ib: "a + int i \<le> b" by simp
    have "\<exists>r'. ?u c = Some (r', puz) \<and> r' \<noteq> 0" if "c \<in> {a..<r}" for c
    proof -
      from that r have j: "nat (c - a) < i" by auto
      have "?cs ! nat (c - a) = a + int (nat (c - a))"
        by (intro nth) (rule less_trans [OF j i(1)])
      with that have "?cs ! nat (c - a) = c" by simp
      with f j show ?thesis by metis
    qed
    with r ib i(3) show ?thesis by auto
  qed
qed

lemma unlock_wf_example_locked: "unlock_wf example_locked"
  by code_simp

lemma unlock_wf_example_locked_1112: "unlock_wf example_locked_1112"
  by code_simp





text \<open>
  C9. \<open>puz_lock_set\<close> on a puzzle returns its argument and leaves \<open>scrambled_tag = 4\<close> with
  the given checksum when the argument is not zero, and \<open>scrambled_tag = 0\<close> with
  \<open>scrambled_cksum = 0\<close> when it is zero; and whenever \<open>puz_unlock_solution\<close> returns 0, the
  puzzle it leaves has \<open>scrambled_tag = 0\<close> and \<open>scrambled_cksum = 0\<close>.
\<close>

theorem lock_state_invariant:
  "(\<exists>q. puz_lock_set (Some p) ck = (ck, Some q)
        \<and> (ck \<noteq> 0 \<longrightarrow> scrambled_tag (header q) = 4 \<and> scrambled_cksum (header q) = ck)
        \<and> (ck = 0 \<longrightarrow> scrambled_tag (header q) = 0 \<and> scrambled_cksum (header q) = 0))
   \<and> (\<forall>q. puz_unlock_solution a0 a1 a2 puz code = Some (0, q) \<longrightarrow>
        (\<exists>q'. q = Some q' \<and> scrambled_tag (header q') = 0 \<and> scrambled_cksum (header q') = 0))"
proof (intro conjI allI impI)
  show "\<exists>q. puz_lock_set (Some p) ck = (ck, Some q)
        \<and> (ck \<noteq> 0 \<longrightarrow> scrambled_tag (header q) = 4 \<and> scrambled_cksum (header q) = ck)
        \<and> (ck = 0 \<longrightarrow> scrambled_tag (header q) = 0 \<and> scrambled_cksum (header q) = 0)"
    by (simp add: puz_lock_set_def)
next
  fix q assume "puz_unlock_solution a0 a1 a2 puz code = Some (0, q)"
  from unlock_zero [OF this]
  show "\<exists>q'. q = Some q' \<and> scrambled_tag (header q') = 0 \<and> scrambled_cksum (header q') = 0"
    by auto
qed

theorem lock_state_invariant_witness:
  "(\<exists>q. puz_lock_set (Some example_puzzle) 30885 = (30885, Some q)
        \<and> scrambled_tag (header q) = 4 \<and> scrambled_cksum (header q) = 30885)
   \<and> (\<exists>q. puz_lock_set (Some example_locked) 0 = (0, Some q)
        \<and> scrambled_tag (header q) = 0 \<and> scrambled_cksum (header q) = 0)
   \<and> (\<exists>q'. puz_unlock_solution True True True (Some example_locked) 1111 = Some (0, Some q')
        \<and> scrambled_tag (header q') = 0 \<and> scrambled_cksum (header q') = 0)"
proof -
  have "map_option fst (puz_unlock_solution True True True (Some example_locked) 1111) = Some 0"
    by code_simp
  then obtain q where
    q: "puz_unlock_solution True True True (Some example_locked) 1111 = Some (0, q)"
    by auto
  from lock_state_invariant [of example_puzzle 30885 True True True "Some example_locked" 1111] q
  have 1: "\<exists>q. puz_lock_set (Some example_puzzle) 30885 = (30885, Some q)
        \<and> scrambled_tag (header q) = 4 \<and> scrambled_cksum (header q) = 30885"
    and 3: "\<exists>q'. puz_unlock_solution True True True (Some example_locked) 1111 = Some (0, Some q')
        \<and> scrambled_tag (header q') = 0 \<and> scrambled_cksum (header q') = 0"
    by auto
  from lock_state_invariant [of example_locked 0 True True True None 0]
  have 2: "\<exists>q. puz_lock_set (Some example_locked) 0 = (0, Some q)
        \<and> scrambled_tag (header q) = 0 \<and> scrambled_cksum (header q) = 0"
    by auto
  from 1 2 3 show ?thesis by blast
qed

text \<open>
  C10. Whenever \<open>puz_unlock_solution\<close> returns a result other than 0, the puzzle afterwards
  is the puzzle before the call; when it returns 0, the puzzle afterwards differs from the
  one before in its solution bytes, \<open>scrambled_tag\<close> and \<open>scrambled_cksum\<close> only, the two
  lock fields being zero. On a square puzzle whose solution buffer holds its cells, none
  of them NUL, the call returns when the allocation of \<open>formatted_solution\<close> succeeds, and on
  the return of 0 the solution is the decoded candidate written back into the cells that
  are not \<open>'.'\<close>.
\<close>

theorem unlock_failure_keeps_puzzle:
  "(\<forall>r q. puz_unlock_solution a0 a1 a2 puz code = Some (r, q) \<longrightarrow>
      (r \<noteq> 0 \<longrightarrow> q = puz)
      \<and> (r = 0 \<longrightarrow> (\<exists>p s'. puz = Some p
            \<and> q = Some (p\<lparr>header := (header p)\<lparr>scrambled_tag := 0, scrambled_cksum := 0\<rparr>,
                           solution := s'\<rparr>))))
   \<and> (\<forall>p. puz = Some p \<and> unlock_wf p \<longrightarrow>
        (\<exists>r q. puz_unlock_solution True a1 a2 puz code = Some (r, q)
           \<and> (r = 0 \<longrightarrow> q = Some (p\<lparr>header := (header p)\<lparr>scrambled_tag := 0,
                  scrambled_cksum := 0\<rparr>,
                solution := puz_written_back p
                  (candidate (code_digits code) (puz_canonical p) @ [0])\<rparr>))))"
proof (intro conjI allI impI)
  fix r q assume u: "puz_unlock_solution a0 a1 a2 puz code = Some (r, q)"
  { assume "r \<noteq> 0" with u show "q = puz" by (rule unlock_nonzero) }
  { assume "r = 0"
    with u unlock_zero [of a0 a1 a2 puz code q]
    show "\<exists>p s'. puz = Some p
            \<and> q = Some (p\<lparr>header := (header p)\<lparr>scrambled_tag := 0, scrambled_cksum := 0\<rparr>,
                           solution := s'\<rparr>)" by blast }
next
  fix p assume "puz = Some p \<and> unlock_wf p"
  then have p: "puz = Some p" and wf: "unlock_wf p" by simp_all
  obtain r q where rq: "unlock_result a1 a2 p code = (r, q)" by (cases "unlock_result a1 a2 p code")
  have u: "puz_unlock_solution True a1 a2 puz code = Some (r, q)"
    using puz_unlock_solution_eq(1) [OF wf] rq p by simp
  have "r = 0 \<longrightarrow> q = Some (p\<lparr>header := (header p)\<lparr>scrambled_tag := 0,
                  scrambled_cksum := 0\<rparr>,
                solution := puz_written_back p
                  (candidate (code_digits code) (puz_canonical p) @ [0])\<rparr>)"
    using rq by (auto simp: unlock_result_def Let_def split: if_splits)
  with u show "\<exists>r q. puz_unlock_solution True a1 a2 puz code = Some (r, q)
           \<and> (r = 0 \<longrightarrow> q = Some (p\<lparr>header := (header p)\<lparr>scrambled_tag := 0,
                  scrambled_cksum := 0\<rparr>,
                solution := puz_written_back p
                  (candidate (code_digits code) (puz_canonical p) @ [0])\<rparr>))"
    by blast
qed

theorem unlock_failure_keeps_puzzle_witness:
  "puz_unlock_solution True True True (Some example_locked) 1112 = Some (2, Some example_locked)
   \<and> puz_unlock_solution True True True (Some example_locked) 1011
       = Some (-2, Some example_locked)
   \<and> puz_unlock_solution True False True (Some example_locked) 1111
       = Some (-3, Some example_locked)
   \<and> (\<exists>q. puz_unlock_solution True True True (Some example_locked) 1111 = Some (0, Some q)
          \<and> solution q = c_string ''WAY...ZBX'' \<and> scrambled_tag (header q) = 0
          \<and> scrambled_cksum (header q) = 0)"
proof -
  note W = unlock_wf_example_locked
  have "map_option fst (puz_unlock_solution True True True (Some example_locked) 1112) = Some 2"
    by code_simp
  then obtain q1 where
    "puz_unlock_solution True True True (Some example_locked) 1112 = Some (2, q1)"
    by auto
  with unlock_failure_keeps_puzzle [of True True True "Some example_locked" 1112]
  have 1: "puz_unlock_solution True True True (Some example_locked) 1112
      = Some (2, Some example_locked)"
    by auto
  have "map_option fst (puz_unlock_solution True True True (Some example_locked) 1011)
      = Some (-2)"
    by code_simp
  then obtain q2 where
    "puz_unlock_solution True True True (Some example_locked) 1011 = Some (-2, q2)"
    by auto
  with unlock_failure_keeps_puzzle [of True True True "Some example_locked" 1011]
  have 2: "puz_unlock_solution True True True (Some example_locked) 1011
      = Some (-2, Some example_locked)"
    by auto
  have "map_option fst (puz_unlock_solution True False True (Some example_locked) 1111)
      = Some (-3)"
    by code_simp
  then obtain q3 where
    "puz_unlock_solution True False True (Some example_locked) 1111 = Some (-3, q3)"
    by auto
  with unlock_failure_keeps_puzzle [of True False True "Some example_locked" 1111]
  have 3: "puz_unlock_solution True False True (Some example_locked) 1111
      = Some (-3, Some example_locked)"
    by auto
  have e: "map_option fst (puz_unlock_solution True True True (Some example_locked) 1111) = Some 0"
    by code_simp
  have wb: "puz_written_back example_locked
      (candidate (code_digits 1111) (puz_canonical example_locked) @ [0])
      = c_string ''WAY...ZBX''" by code_simp
  from unlock_failure_keeps_puzzle [of True True True "Some example_locked" 1111] W
  obtain r q where u: "puz_unlock_solution True True True (Some example_locked) 1111 = Some (r, q)"
    and z: "r = 0 \<longrightarrow> q = Some (example_locked\<lparr>header := (header example_locked)\<lparr>scrambled_tag := 0,
                  scrambled_cksum := 0\<rparr>,
                solution := puz_written_back example_locked
                  (candidate (code_digits 1111) (puz_canonical example_locked) @ [0])\<rparr>)"
    by blast
  from u e have "r = 0" by simp
  with u z wb have 4: "\<exists>q. puz_unlock_solution True True True (Some example_locked) 1111
          = Some (0, Some q)
          \<and> solution q = c_string ''WAY...ZBX'' \<and> scrambled_tag (header q) = 0
          \<and> scrambled_cksum (header q) = 0"
    by simp
  from 1 2 3 4 show ?thesis by blast
qed

lemma brute_loop_first_success:
  assumes "i < length codes" and "unlock_at alloc puz (codes ! i) = Some (0, q)"
    and "\<forall>j<i. \<exists>r' q'. unlock_at alloc puz (codes ! j) = Some (r', q') \<and> r' \<noteq> 0"
  shows "brute_loop alloc puz codes = Some (codes ! i, q)"
  using assms
proof (induction codes arbitrary: i)
  case Nil
  then show ?case by simp
next
  case (Cons c cs)
  show ?case
  proof (cases i)
    case 0
    with Cons.prems(2) show ?thesis by simp
  next
    case (Suc k)
    from Cons.prems(3) Suc obtain r' q' where u: "unlock_at alloc puz c = Some (r', q')"
      and nz: "r' \<noteq> 0" by fastforce
    from unlock_at_nonzero [OF u nz] have q': "q' = puz" .
    have k: "k < length cs" using Cons.prems(1) Suc by simp
    have s: "unlock_at alloc puz (cs ! k) = Some (0, q)" using Cons.prems(2) Suc by simp
    have f: "\<forall>j<k. \<exists>r' q'. unlock_at alloc puz (cs ! j) = Some (r', q') \<and> r' \<noteq> 0"
    proof (intro allI impI)
      fix j assume "j < k"
      then have "Suc j < i" using Suc by simp
      with Cons.prems(3) show "\<exists>r' q'. unlock_at alloc puz (cs ! j) = Some (r', q') \<and> r' \<noteq> 0"
        by fastforce
    qed
    from Cons.IH [OF k s f] u nz q' Suc show ?thesis by simp
  qed
qed

lemma brute_loop_no_success:
  assumes "\<forall>c\<in>set codes. \<exists>r' q'. unlock_at alloc puz c = Some (r', q') \<and> r' \<noteq> 0"
  shows "brute_loop alloc puz codes = Some (-3, puz)"
  using assms
proof (induction codes)
  case Nil
  then show ?case by simp
next
  case (Cons c cs)
  from Cons.prems obtain r' q' where u: "unlock_at alloc puz c = Some (r', q')"
    and nz: "r' \<noteq> 0" by auto
  from unlock_at_nonzero [OF u nz] have "q' = puz" .
  with u nz Cons show ?case by simp
qed

lemma brute_loop_upto_success:
  assumes "a \<le> c" and "c \<le> b" and "unlock_at alloc puz c = Some (0, q)"
    and "\<forall>c'\<in>{a..<c}. \<exists>r' q'. unlock_at alloc puz c' = Some (r', q') \<and> r' \<noteq> 0"
  shows "brute_loop alloc puz [a..b] = Some (c, q)"
proof -
  define i where "i = nat (c - a)"
  have nth: "[a..b] ! j = a + int j" if "j < length [a..b]" for j using that by simp
  have i: "i < length [a..b]" using assms(1,2) by (simp add: i_def)
  have ci: "[a..b] ! i = c" using nth [OF i] assms(1) by (simp add: i_def)
  have f: "\<forall>j<i. \<exists>r' q'. unlock_at alloc puz ([a..b] ! j) = Some (r', q') \<and> r' \<noteq> 0"
  proof (intro allI impI)
    fix j assume j: "j < i"
    then have "j < length [a..b]" using i by simp
    from nth [OF this] have e: "[a..b] ! j = a + int j" .
    have "a + int j \<in> {a..<c}" using j assms(1) by (simp add: i_def)
    with assms(4) e
    show "\<exists>r' q'. unlock_at alloc puz ([a..b] ! j) = Some (r', q') \<and> r' \<noteq> 0" by simp
  qed
  from brute_loop_first_success [OF i _ f, of q] assms(3) ci show ?thesis by simp
qed

lemma puz_brute_force_unlock_None: "puz_brute_force_unlock alloc None = Some (-1, None)"
  unfolding puz_brute_force_unlock_def by (simp only: option.case)

lemma puz_brute_force_unlock_unlocked:
  "scrambled_tag (header p) = 0 \<Longrightarrow> puz_brute_force_unlock alloc (Some p) = Some (-2, Some p)"
  unfolding puz_brute_force_unlock_def by (simp only: option.case simp_thms if_True)

lemma puz_brute_force_unlock_locked:
  "scrambled_tag (header p) \<noteq> 0 \<Longrightarrow>
   puz_brute_force_unlock alloc (Some p) = brute_loop alloc (Some p) [1111..9999]"
  unfolding puz_brute_force_unlock_def by (simp only: option.case if_False)

text \<open>
  C6. Whenever \<open>puz_brute_force_unlock\<close> returns, on any puzzle, its result is: \<open>-1\<close> for a
  null puzzle; \<open>-2\<close> for a puzzle that is not locked; \<open>-3\<close>, the puzzle being unchanged, when
  \<open>puz_unlock_solution\<close> has returned a result other than 0 for every code of 1111..9999;
  and otherwise the first code \<open>r\<close> of 1111..9999 for which \<open>puz_unlock_solution\<close> returns 0,
  every smaller code from 1111 on having returned another result and left the puzzle
  unchanged; that code has no zero digit. It does return, on any locked puzzle: the code
  \<open>c\<close> of 1111..9999 when \<open>puz_unlock_solution\<close> returns 0 for \<open>c\<close> and has returned another
  result for every code from 1111 up to \<open>c\<close>; and \<open>-3\<close> when \<open>puz_unlock_solution\<close> returns a
  result other than 0 for every code of 1111..9999. On a square puzzle whose solution
  buffer holds its cells, none of them NUL, every one of these calls returns, and so does
  \<open>puz_brute_force_unlock\<close>, when the allocations of \<open>formatted_solution\<close> succeed.
  \<open>puz_unlock_solution\<close> never returns 0 for a code with a zero digit.
\<close>

theorem brute_force_first_code:
  "(\<forall>r q. puz_brute_force_unlock alloc puz = Some (r, q) \<longrightarrow>
        (puz = None \<and> r = -1 \<and> q = puz)
      \<or> (\<exists>p. puz = Some p \<and> scrambled_tag (header p) = 0 \<and> r = -2 \<and> q = puz)
      \<or> (\<exists>p. puz = Some p \<and> scrambled_tag (header p) \<noteq> 0 \<and> r = -3 \<and> q = puz
            \<and> (\<forall>c\<in>{1111..9999}. \<exists>r'. unlock_at alloc puz c = Some (r', puz) \<and> r' \<noteq> 0))
      \<or> (\<exists>p. puz = Some p \<and> scrambled_tag (header p) \<noteq> 0 \<and> 1111 \<le> r \<and> r \<le> 9999
            \<and> unlock_at alloc puz r = Some (0, q)
            \<and> 0 \<notin> set (code_digits (word_of_int r))
            \<and> (\<forall>c\<in>{1111..<r}. \<exists>r'. unlock_at alloc puz c = Some (r', puz) \<and> r' \<noteq> 0)))
   \<and> (\<forall>p c q. puz = Some p \<and> scrambled_tag (header p) \<noteq> 0 \<and> 1111 \<le> c \<and> c \<le> 9999
         \<and> unlock_at alloc puz c = Some (0, q)
         \<and> (\<forall>c'\<in>{1111..<c}. \<exists>r' q'. unlock_at alloc puz c' = Some (r', q') \<and> r' \<noteq> 0) \<longrightarrow>
         puz_brute_force_unlock alloc puz = Some (c, q))
   \<and> (\<forall>p. puz = Some p \<and> scrambled_tag (header p) \<noteq> 0
         \<and> (\<forall>c\<in>{1111..9999}. \<exists>r' q'. unlock_at alloc puz c = Some (r', q') \<and> r' \<noteq> 0) \<longrightarrow>
         puz_brute_force_unlock alloc puz = Some (-3, puz))
   \<and> (\<forall>p. puz = Some p \<and> unlock_wf p \<and> (\<forall>c\<in>{1111..9999}. fst (alloc c)) \<longrightarrow>
         (\<forall>c\<in>{1111..9999}. \<exists>r q. unlock_at alloc puz c = Some (r, q))
         \<and> (\<exists>r q. puz_brute_force_unlock alloc puz = Some (r, q)))
   \<and> (\<forall>c q'. 0 \<in> set (code_digits (word_of_int c)) \<longrightarrow> unlock_at alloc puz c \<noteq> Some (0, q'))"
proof (intro conjI allI impI ballI)
  fix c q' assume "0 \<in> set (code_digits (word_of_int c))"
  with unlock_at_zero [of alloc puz c q']
  show "unlock_at alloc puz c \<noteq> Some (0, q')" by blast
next
  fix p c q
  assume h: "puz = Some p \<and> scrambled_tag (header p) \<noteq> 0 \<and> 1111 \<le> c \<and> c \<le> 9999
         \<and> unlock_at alloc puz c = Some (0, q)
         \<and> (\<forall>c'\<in>{1111..<c}. \<exists>r' q'. unlock_at alloc puz c' = Some (r', q') \<and> r' \<noteq> 0)"
  then have p: "puz = Some p" and t: "scrambled_tag (header p) \<noteq> 0"
    and c: "1111 \<le> c" "c \<le> 9999" and u: "unlock_at alloc puz c = Some (0, q)"
    and f: "\<forall>c'\<in>{1111..<c}. \<exists>r' q'. unlock_at alloc puz c' = Some (r', q') \<and> r' \<noteq> 0"
    by blast+
  show "puz_brute_force_unlock alloc puz = Some (c, q)"
    unfolding p puz_brute_force_unlock_locked [OF t]
    using brute_loop_upto_success [OF c u f] unfolding p .
next
  fix p
  assume h: "puz = Some p \<and> scrambled_tag (header p) \<noteq> 0
         \<and> (\<forall>c\<in>{1111..9999}. \<exists>r' q'. unlock_at alloc puz c = Some (r', q') \<and> r' \<noteq> 0)"
  then have p: "puz = Some p" and t: "scrambled_tag (header p) \<noteq> 0"
    and f: "\<forall>c\<in>{1111..9999}. \<exists>r' q'. unlock_at alloc puz c = Some (r', q') \<and> r' \<noteq> 0"
    by blast+
  from f have f': "\<forall>c\<in>set [1111..9999]. \<exists>r' q'. unlock_at alloc puz c = Some (r', q') \<and> r' \<noteq> 0"
    by (simp only: set_upto)
  show "puz_brute_force_unlock alloc puz = Some (-3, puz)"
    unfolding p puz_brute_force_unlock_locked [OF t]
    using brute_loop_no_success [OF f'] unfolding p .
next
  fix p and c :: int
  assume h: "puz = Some p \<and> unlock_wf p \<and> (\<forall>c\<in>{1111..9999}. fst (alloc c))"
    and c: "c \<in> {1111..9999}"
  then have "fst (alloc c)" by blast
  then obtain a1 a2 where a: "alloc c = (True, a1, a2)" by (cases "alloc c") auto
  from h have wf: "unlock_wf p" and p: "puz = Some p" by blast+
  from unlock_returns [OF wf, of a1 a2 "word_of_int c"] a p
  show "\<exists>r q. unlock_at alloc puz c = Some (r, q)" by (auto simp: unlock_at_def)
next
  fix p assume h: "puz = Some p \<and> unlock_wf p \<and> (\<forall>c\<in>{1111..9999}. fst (alloc c))"
  then have "\<forall>c\<in>{1111..9999}. fst (alloc c)" by blast
  then have al: "\<forall>c\<in>set [1111..9999]. fst (alloc c)" by (simp only: set_upto)
  from h brute_loop_returns [OF _ al, of p]
  obtain r q where b: "brute_loop alloc (Some p) [1111..9999] = Some (r, q)" by blast
  show "\<exists>r q. puz_brute_force_unlock alloc puz = Some (r, q)"
  proof (cases "scrambled_tag (header p) = 0")
    case True
    from puz_brute_force_unlock_unlocked [OF True, of alloc] h show ?thesis by blast
  next
    case False
    have "puz_brute_force_unlock alloc (Some p) = Some (r, q)"
      unfolding puz_brute_force_unlock_locked [OF False] by (rule b)
    with h show ?thesis by blast
  qed
next
  fix r q assume u: "puz_brute_force_unlock alloc puz = Some (r, q)"
  show "(puz = None \<and> r = -1 \<and> q = puz)
      \<or> (\<exists>p. puz = Some p \<and> scrambled_tag (header p) = 0 \<and> r = -2 \<and> q = puz)
      \<or> (\<exists>p. puz = Some p \<and> scrambled_tag (header p) \<noteq> 0 \<and> r = -3 \<and> q = puz
            \<and> (\<forall>c\<in>{1111..9999}. \<exists>r'. unlock_at alloc puz c = Some (r', puz) \<and> r' \<noteq> 0))
      \<or> (\<exists>p. puz = Some p \<and> scrambled_tag (header p) \<noteq> 0 \<and> 1111 \<le> r \<and> r \<le> 9999
            \<and> unlock_at alloc puz r = Some (0, q)
            \<and> 0 \<notin> set (code_digits (word_of_int r))
            \<and> (\<forall>c\<in>{1111..<r}. \<exists>r'. unlock_at alloc puz c = Some (r', puz) \<and> r' \<noteq> 0))"
  proof (cases puz)
    case None
    with u puz_brute_force_unlock_None [of alloc] show ?thesis by simp
  next
    case (Some p)
    show ?thesis
    proof (cases "scrambled_tag (header p) = 0")
      case True
      from puz_brute_force_unlock_unlocked [OF True, of alloc] u Some True
      show ?thesis by auto
    next
      case False
      from u have b: "brute_loop alloc puz [1111..9999] = Some (r, q)"
        unfolding Some puz_brute_force_unlock_locked [OF False] .
      from brute_loop_upto [OF b] unlock_at_zero [of alloc puz r q] Some False
      show ?thesis by blast
    qed
  qed
qed

theorem brute_force_first_code_witness:
  "unlock_wf example_locked_1112
   \<and> (\<exists>q. puz_brute_force_unlock (\<lambda>c. (True, True, True)) (Some example_locked_1112)
            = Some (1112, q))"
proof -
  let ?al = "\<lambda>c :: int. (True, True, True)"
  let ?p = "Some example_locked_1112"
  note W = unlock_wf_example_locked_1112
  have u1: "map_option fst (unlock_at ?al ?p 1111) = Some 2" by code_simp
  have u2: "map_option fst (unlock_at ?al ?p 1112) = Some 0" by code_simp
  have t: "scrambled_tag (header example_locked_1112) \<noteq> 0" by code_simp
  note T = brute_force_first_code [of ?al ?p]
  from T W obtain r q where b: "puz_brute_force_unlock ?al ?p = Some (r, q)" by auto
  with T t have o: "(r = -3
        \<and> (\<forall>c\<in>{1111..9999}. \<exists>r'. unlock_at ?al ?p c = Some (r', ?p) \<and> r' \<noteq> 0))
      \<or> (1111 \<le> r \<and> r \<le> 9999 \<and> unlock_at ?al ?p r = Some (0, q)
            \<and> (\<forall>c\<in>{1111..<r}. \<exists>r'. unlock_at ?al ?p c = Some (r', ?p) \<and> r' \<noteq> 0))"
    by auto
  from o have "r = 1112"
  proof
    assume "r = -3 \<and> (\<forall>c\<in>{1111..9999}. \<exists>r'. unlock_at ?al ?p c = Some (r', ?p) \<and> r' \<noteq> 0)"
    then have "\<forall>c\<in>{1111..9999}. \<exists>r'. unlock_at ?al ?p c = Some (r', ?p) \<and> r' \<noteq> 0" by blast
    from bspec [OF this, of 1112] u2 show ?thesis by auto
  next
    assume a: "1111 \<le> r \<and> r \<le> 9999 \<and> unlock_at ?al ?p r = Some (0, q)
            \<and> (\<forall>c\<in>{1111..<r}. \<exists>r'. unlock_at ?al ?p c = Some (r', ?p) \<and> r' \<noteq> 0)"
    then have f: "\<forall>c\<in>{1111..<r}. \<exists>r'. unlock_at ?al ?p c = Some (r', ?p) \<and> r' \<noteq> 0" by blast
    have "\<not> 1112 < r"
    proof
      assume "1112 < r"
      with bspec [OF f, of 1112] u2 show False by auto
    qed
    moreover have "r \<noteq> 1111"
    proof
      assume "r = 1111"
      with a have "unlock_at ?al ?p 1111 = Some (0, q)" by simp
      with u1 show False by simp
    qed
    ultimately show ?thesis using a by simp
  qed
  with b W show ?thesis by blast
qed

section \<open>Properties of the binary loader\<close>

lemma sum_uint_zero: "sum_list (map uint (g :: byte list)) = 0 \<longleftrightarrow> (\<forall>c\<in>set g. c = 0)"
proof (induction g)
  case Nil
  then show ?case by simp
next
  case (Cons a g)
  have "0 \<le> sum_list (map uint g)" by (rule sum_list_nonneg) auto
  then have "uint a + sum_list (map uint g) = 0 \<longleftrightarrow> uint a = 0 \<and> sum_list (map uint g) = 0"
    by (intro add_nonneg_eq_0_iff) simp_all
  with Cons.IH show ?case by (simp add: uint_0_iff)
qed

lemma load_grbs_bin_zero:
  assumes ck: "le_16 b off = Some ck"
    and g: "bytes_at b (off + 2) (uint (width (header p)) * uint (height (header p))) = Some g"
    and z: "\<forall>c\<in>set g. c = 0"
    and t: "tag_eq b (off + (2 + uint (width (header p)) * uint (height (header p)) + 1)) RTBL
              = Some is_rtbl"
    and l: "is_rtbl \<longrightarrow>
              le_16 b (off + (2 + uint (width (header p)) * uint (height (header p)) + 1 + 4))
                = Some len"
  shows "\<exists>n. load_grbs_bin True (Some p) b off section_sz
            = Some (n, Some (p\<lparr>grbs_cksum := ck, grbs := None\<rparr>)) \<and> 0 < n
          \<and> \<not> puz_has_rebus (Some (p\<lparr>grbs_cksum := ck, grbs := None\<rparr>))"
proof -
  have s: "sum_list (map uint g) = 0" using z by (simp add: sum_uint_zero)
  have nn: "0 \<le> uint (width (header p)) * uint (height (header p))" by simp
  show ?thesis
  proof (cases is_rtbl)
    case True
    with l have l': "le_16 b (off + (2 + uint (width (header p)) * uint (height (header p)) + 1 + 4))
                = Some len" by simp
    have "load_grbs_bin True (Some p) b off section_sz
        = Some (nat (2 + uint (width (header p)) * uint (height (header p)) + 1 + 4 + 2 + 2
                     + uint len + 1), Some (p\<lparr>grbs_cksum := ck, grbs := None\<rparr>))"
      using True t l' by (simp add: load_grbs_bin_def ck g s Let_def)
    moreover have "0 \<le> uint len" by simp
    with nn have "0 < nat (2 + uint (width (header p)) * uint (height (header p)) + 1 + 4 + 2 + 2
                     + uint len + 1)" unfolding zero_less_nat_eq by linarith
    ultimately show ?thesis by (simp add: puz_has_rebus_def)
  next
    case False
    have "load_grbs_bin True (Some p) b off section_sz
        = Some (nat (2 + uint (width (header p)) * uint (height (header p)) + 1),
                Some (p\<lparr>grbs_cksum := ck, grbs := None\<rparr>))"
      using False t by (simp add: load_grbs_bin_def ck g s Let_def)
    moreover have "0 < nat (2 + uint (width (header p)) * uint (height (header p)) + 1)"
      unfolding zero_less_nat_eq using nn by linarith
    ultimately show ?thesis by (simp add: puz_has_rebus_def)
  qed
qed

lemma load_grbs_bin_missing_rtbl:
  assumes ck: "le_16 b off = Some ck"
    and g: "bytes_at b (off + 2) (uint (width (header p)) * uint (height (header p))) = Some g"
    and z: "\<exists>c\<in>set g. c \<noteq> 0"
    and t: "tag_eq b (off + (2 + uint (width (header p)) * uint (height (header p)) + 1)) RTBL
              = Some False"
  shows "load_grbs_bin True (Some p) b off section_sz
            = Some (0, Some (p\<lparr>grbs_cksum := ck, grbs := Some g\<rparr>))"
proof -
  have s: "sum_list (map uint g) \<noteq> 0" using z by (simp add: sum_uint_zero)
  show ?thesis using t by (simp add: load_grbs_bin_def ck g s Let_def)
qed

lemma section_loop_grbs_failure:
  assumes "i + 5 < size'" and "le_16 b (i + 4) = Some section_sz"
    and "tag_eq b i GRBS = Some True"
    and "load_grbs_bin (grbs_ok al) puz b (i + 6) section_sz = Some (0, q)"
  shows "section_loop al True b size' i puz = Some None"
    and "section_loop al False b size' i puz = section_loop al False b size' (i + 6) q"
proof -
  show "section_loop al True b size' i puz = Some None"
    by (subst section_loop.simps) (simp add: section_step_def after_section_def assms)
  show "section_loop al False b size' i puz = section_loop al False b size' (i + 6) q"
    by (subst section_loop.simps) (simp add: section_step_def after_section_def assms)
qed

text \<open>
  C5. On the example file whose rebus grid is all zero, \<open>puz_load_bin\<close> into a puzzle of the
  caller returns the puzzle, with no rebus grid and with the timer of the LTIM section that
  follows. On the example file whose rebus grid has a non-zero byte and no RTBL,
  \<open>load_grbs_bin\<close> returns 0; \<open>puz_load_bin\<close> returns \<open>NULL\<close> when it allocated the puzzle
  itself, but into a puzzle of the caller it returns that puzzle: the load does not fail,
  the rebus grid pointer is left set, and the LTIM section is not read.
\<close>

theorem puz_load_bin_grbs_without_rtbl:
  "map_option (map_option (\<lambda>p. (puz_has_rebus (Some p), puz_has_timer (Some p))))
       (puz_load_bin all_ok (Some zeroed_puzzle) (Some (example_file [0, 0])) 85)
     = Some (Some (False, True))
   \<and> map_option fst (load_grbs_bin True (Some example_head_2x1) (Some (example_file [1, 0])) 68 2)
     = Some 0
   \<and> puz_load_bin all_ok None (Some (example_file [1, 0])) 85 = Some None
   \<and> map_option (map_option (\<lambda>p. (grbs p, puz_has_rebus (Some p), puz_has_timer (Some p))))
       (puz_load_bin all_ok (Some zeroed_puzzle) (Some (example_file [1, 0])) 85)
     = Some (Some (Some [1, 0], True, False))"
  by code_simp

end
